theory Spec2Isabelle
  imports Main "HOL-Library.Word" "HOL-Library.Monad_Syntax" "HOL-Library.Sublist"
begin

section \<open>Character buffers\<close>

text \<open>
  The overlay formats its metrics into caller-provided \<open>char*\<close> buffers.  A buffer is a
  list of bytes of the allocated size; a store through an index is checked, so that a write
  before the first or after the last byte is a result of its own (\<open>None\<close>) rather than
  something HOL's total list update would hide.
\<close>

definition poke :: "char list \<Rightarrow> int \<Rightarrow> char \<Rightarrow> char list option" where
  "poke text i c = (if 0 \<le> i \<and> i < int (length text) then Some (text[nat i := c]) else None)"

text \<open>\<open>(metric % 10) + '0'\<close>: the character of one decimal digit.\<close>

definition digit_char :: "nat \<Rightarrow> char" where
  "digit_char d = char_of (of_char (CHR ''0'') + d)"

definition decimalPoint :: char where
  "decimalPoint = CHR ''.''"

definition decimalCount :: nat where
  "decimalCount = 2"

section \<open>Numeric formatters (overlay)\<close>

text \<open>
  \<open>integerMetricToText(quint64 metric, char* text, int width)\<close>: a do-while loop that
  stores one digit at \<open>text[--width]\<close>, returns 0 as soon as the width is used up, and
  otherwise goes on while the quotient is not zero.  The result is the buffer and the
  returned remaining width.
\<close>

function integerMetricToText :: "nat \<Rightarrow> char list \<Rightarrow> int \<Rightarrow> (char list \<times> int) option" where
  "integerMetricToText metric text width =
     (case poke text (width - 1) (digit_char (metric mod 10)) of
        None \<Rightarrow> None
      | Some text' \<Rightarrow>
          if width - 1 = 0 then Some (text', 0)
          else if metric div 10 \<noteq> 0 then integerMetricToText (metric div 10) text' (width - 1)
          else Some (text', width - 1))"
  by pat_completeness auto
termination
  by (relation "measure (\<lambda>(metric, text, width). metric)") auto

declare integerMetricToText.simps [simp del]

text \<open>
  \<open>timeMetricToText\<close>, first loop: the two decimal digits.  \<open>Inl\<close> is the early
  \<open>return 0\<close> inside the loop, \<open>Inr\<close> the state in which the loop is left
  (metric, text, width, i).
\<close>

function decimalDigits ::
  "nat \<Rightarrow> char list \<Rightarrow> int \<Rightarrow> nat \<Rightarrow> (char list + nat \<times> char list \<times> int \<times> nat) option" where
  "decimalDigits metric text width i =
     (case poke text (width - 1) (digit_char (metric mod 10)) of
        None \<Rightarrow> None
      | Some text' \<Rightarrow>
          if width - 1 = 0 then Some (Inl text')
          else if i + 1 < decimalCount \<and> metric div 10 \<noteq> 0
            then decimalDigits (metric div 10) text' (width - 1) (i + 1)
          else Some (Inr (metric div 10, text', width - 1, i + 1)))"
  by pat_completeness auto
termination
  by (relation "measure (\<lambda>(metric, text, width, i). decimalCount - i)") auto

declare decimalDigits.simps [simp del]

text \<open>Second loop of \<open>timeMetricToText\<close>: the integer part, while digits and width remain.\<close>

function integerDigits :: "nat \<Rightarrow> char list \<Rightarrow> int \<Rightarrow> (char list \<times> int) option" where
  "integerDigits metric text width =
     (case poke text (width - 1) (digit_char (metric mod 10)) of
        None \<Rightarrow> None
      | Some text' \<Rightarrow>
          if metric div 10 \<noteq> 0 \<and> width - 1 > 0
            then integerDigits (metric div 10) text' (width - 1)
          else Some (text', width - 1))"
  by pat_completeness auto
termination
  by (relation "measure (\<lambda>(metric, text, width). metric)") auto

declare integerDigits.simps [simp del]

definition timeMetricToText :: "nat \<Rightarrow> char list \<Rightarrow> int \<Rightarrow> (char list \<times> int) option" where
  "timeMetricToText metric text width =
     (case decimalDigits (metric div 10000) text width 0 of
        None \<Rightarrow> None
      | Some (Inl text') \<Rightarrow> Some (text', 0)
      | Some (Inr (metric', text', width', i)) \<Rightarrow>
          if metric' \<noteq> 0 then do {
            text'' \<leftarrow> poke text' (width' - 1) decimalPoint;
            if width' - 1 > 0 then integerDigits metric' text'' (width' - 1)
            else Some (text'', width' - 1)
          } else if i = 1 then do {
            text1 \<leftarrow> poke text' (width' - 1) (CHR ''0'');
            if width' - 1 = 0 then Some (text1, 0)
            else do {
              text2 \<leftarrow> poke text1 (width' - 2) decimalPoint;
              if width' - 2 > 0 then do {
                text3 \<leftarrow> poke text2 (width' - 3) (CHR ''0'');
                Some (text3, width' - 3)
              } else Some (text2, width' - 2)
            }
          } else do {
            text2 \<leftarrow> poke text' (width' - 1) decimalPoint;
            if width' - 1 > 0 then do {
              text3 \<leftarrow> poke text2 (width' - 2) (CHR ''0'');
              Some (text3, width' - 2)
            } else Some (text2, width' - 1)
          })"


subsection \<open>Window metrics\<close>

text \<open>
  The metric table of the overlay (\<open>metricInfo\<close>): name, default width and the event
  type that owns the metric.  A metric is known by its position in the table, as in the
  source's enum.
\<close>

datatype event_type = Process | Window | Frame | Generic

definition metricInfo :: "(string \<times> nat \<times> event_type) list" where
  "metricInfo =
     [(''cpuUsage'', 3, Process), (''threadCount'', 3, Process), (''vszMemory'', 8, Process),
      (''rssMemory'', 8, Process), (''windowId'', 2, Window), (''windowSize'', 9, Window),
      (''frameNumber'', 7, Frame), (''deltaTime'', 7, Frame), (''syncTime'', 7, Frame),
      (''renderTime'', 7, Frame), (''gpuTime'', 7, Frame), (''totalTime'', 7, Frame)]"

definition WindowId :: nat where "WindowId = 4"
definition WindowSize :: nat where "WindowSize = 5"

definition maxMetricWidth :: nat where "maxMetricWidth = 32"
definition bufferSize :: nat where "bufferSize = 128"

text \<open>One bound slot of \<open>m_metrics\<close>: the fields \<open>index\<close>, \<open>textIndex\<close>, \<open>width\<close>.\<close>

record metric_slot =
  slot_index :: nat
  slot_textIndex :: nat
  slot_width :: nat

text \<open>\<open>QSize\<close>: two C ints.\<close>

record QSize =
  size_width :: int
  size_height :: int

text \<open>An \<open>int\<close> passed where a \<open>quint64\<close> is expected.\<close>

definition quint64_of_int :: "int \<Rightarrow> nat" where
  "quint64_of_int v = nat (v mod 2 ^ 64)"

text \<open>\<open>memset(text, ' ', maxMetricWidth)\<close>\<close>

definition memset_blank :: "char list \<Rightarrow> char list option" where
  "memset_blank text =
     (if maxMetricWidth \<le> length text
      then Some (replicate maxMetricWidth (CHR '' '') @ drop maxMetricWidth text) else None)"

text \<open>
  The \<open>switch\<close> of \<open>updateWindowMetrics\<close> for one slot: the scratch buffer after the
  metric of the slot has been formatted into it.
\<close>

definition windowMetricText :: "nat \<Rightarrow> nat \<Rightarrow> QSize \<Rightarrow> char list \<Rightarrow> int \<Rightarrow> char list option" where
  "windowMetricText idx windowId frameSize text textWidth =
     (if idx = WindowId then
        map_option fst (integerMetricToText windowId text textWidth)
      else if idx = WindowSize then do {
        (text1, textWidth1) \<leftarrow>
          integerMetricToText (quint64_of_int (size_height frameSize)) text textWidth;
        if textWidth1 \<ge> 2 then do {
          text2 \<leftarrow> poke text1 (textWidth1 - 1) (CHR ''x'');
          (text3, _) \<leftarrow>
            integerMetricToText (quint64_of_int (size_width frameSize)) text2 (textWidth1 - 1);
          Some text3
        } else if textWidth1 = 1 then poke text1 (textWidth1 - 1) (CHR ''x'')
        else Some text1
      } else Some text)"

text \<open>
  \<open>updateWindowMetrics\<close>: for every Window slot the scratch buffer is blanked, the metric
  is formatted and \<open>m_bitmapText.updateText(text, textIndex, width)\<close> is called.  The calls
  are collected: the position in the parsed text and the \<open>width\<close> characters passed.
\<close>

fun updateWindowMetrics ::
  "nat \<Rightarrow> QSize \<Rightarrow> metric_slot list \<Rightarrow> char list \<Rightarrow> (nat \<times> string) list option" where
  "updateWindowMetrics windowId frameSize [] text = Some []"
| "updateWindowMetrics windowId frameSize (m # ms) text = do {
     text0 \<leftarrow> memset_blank text;
     text1 \<leftarrow> windowMetricText (slot_index m) windowId frameSize text0 (int (slot_width m));
     rest \<leftarrow> updateWindowMetrics windowId frameSize ms text1;
     Some ((slot_textIndex m, take (slot_width m) text1) # rest)
   }"

section \<open>Application monitor: the list of loggers\<close>

definition maxLoggers :: nat where
  "maxLoggers = 8"

text \<open>
  The fields of \<open>FMApplicationMonitorPrivate\<close> that \<open>installLogger\<close> and
  \<open>removeLogger\<close> touch.  \<open>monitor_loggers\<close> (the member \<open>m_loggers\<close>, with its count \<open>m_loggerCount\<close>) is an array of \<open>maxLoggers\<close> pointers
  (\<open>None\<close> is \<open>nullptr\<close>); \<open>thread_loggers\<close> is the list last handed to
  \<open>m_loggingThread->setLoggers\<close>, \<open>deleted\<close> the loggers on which \<open>delete\<close> was
  called and \<open>loggersChanged\<close> counts the emitted signals.
\<close>

record 'l monitor_private =
  monitor_loggers :: "'l option list"
  monitor_loggerCount :: nat
  started :: bool
  thread_loggers :: "'l option list"
  deleted :: "'l list"
  loggersChanged :: nat

text \<open>\<open>LoggingThread::setLoggers(loggers, count)\<close> copies the first \<open>count\<close> pointers.\<close>

definition setThreadLoggers :: "'l monitor_private \<Rightarrow> 'l monitor_private" where
  "setThreadLoggers d =
     (if started d then d\<lparr>thread_loggers := take (monitor_loggerCount d) (monitor_loggers d)\<rparr> else d)"

definition installLogger :: "'l option \<Rightarrow> 'l monitor_private \<Rightarrow> bool \<times> 'l monitor_private" where
  "installLogger logger d =
     (if monitor_loggerCount d < maxLoggers \<and> logger \<noteq> None then
        let d1 = d\<lparr>monitor_loggers := (monitor_loggers d)[monitor_loggerCount d := logger],
                   monitor_loggerCount := monitor_loggerCount d + 1\<rparr>;
            d2 = setThreadLoggers d1
        in (True, d2\<lparr>loggersChanged := loggersChanged d2 + 1\<rparr>)
      else (False, d))"

text \<open>
  The loop of \<open>removeLogger\<close>, \<open>for (int i = d->monitor_loggerCount; i > 0; --i)\<close>, from the
  index \<open>i\<close> downwards.  \<open>qt_debug\<close> is the build with \<open>QT_NO_DEBUG\<close> undefined, in
  which the vacated slot is reset.  Reading \<open>monitor_loggers[i]\<close> outside the array is the
  result \<open>None\<close>.
\<close>

fun removeLogger_from ::
  "bool \<Rightarrow> 'l \<Rightarrow> bool \<Rightarrow> nat \<Rightarrow> 'l monitor_private \<Rightarrow> (bool \<times> 'l monitor_private) option" where
  "removeLogger_from qt_debug logger free 0 d = Some (False, d)"
| "removeLogger_from qt_debug logger free (Suc n) d =
     (let i = Suc n in
      if length (monitor_loggers d) \<le> i then None
      else if monitor_loggers d ! i = Some logger then
        let count = monitor_loggerCount d - 1;
            moved = (if i < count then (monitor_loggers d)[i := monitor_loggers d ! count] else monitor_loggers d);
            cleared = (if qt_debug then moved[count := None] else moved);
            d1 = setThreadLoggers (d\<lparr>monitor_loggers := cleared, monitor_loggerCount := count\<rparr>);
            d2 = (if free then d1\<lparr>deleted := deleted d1 @ [logger]\<rparr> else d1)
        in Some (True, d2\<lparr>loggersChanged := loggersChanged d2 + 1\<rparr>)
      else removeLogger_from qt_debug logger free n d)"

definition removeLogger ::
  "bool \<Rightarrow> 'l option \<Rightarrow> bool \<Rightarrow> 'l monitor_private \<Rightarrow> (bool \<times> 'l monitor_private) option" where
  "removeLogger qt_debug logger free d =
     (case logger of
        None \<Rightarrow> Some (False, d)
      | Some l \<Rightarrow> removeLogger_from qt_debug l free (monitor_loggerCount d) d)"

text \<open>The private part as its constructor leaves it, in a debug build (\<open>monitor_loggers{}\<close>).\<close>

definition monitor_private_init :: "'l monitor_private" where
  "monitor_private_init =
     \<lparr>monitor_loggers = replicate maxLoggers None, monitor_loggerCount = 0, started = False,
      thread_loggers = [], deleted = [], loggersChanged = 0\<rparr>"

text \<open>The loggers that are installed: the first \<open>monitor_loggerCount\<close> entries, as \<open>loggers()\<close> lists them.\<close>

definition loggers :: "'l monitor_private \<Rightarrow> 'l option list" where
  "loggers d = take (monitor_loggerCount d) (monitor_loggers d)"

section \<open>Window monitor\<close>

text \<open>
  What a window monitor hands to \<open>m_loggingThread->push\<close>: a window event (time stamp,
  window id, width, height and the state \<open>Shown\<close>, \<open>Hidden\<close> or \<open>Resized\<close>) or its
  accumulated frame event.
\<close>

datatype window_state = Hidden | Shown | Resized

datatype 'a monitor_event =
  WindowEvent nat nat int int window_state
| FrameEvent nat nat 'a nat nat nat nat nat

text \<open>
  The state of a \<open>WindowMonitor\<close>.  The bits of \<open>m_flags\<close> that the callbacks test are
  booleans; \<open>frame_number\<close> is \<open>m_frameEvent.frame.number\<close>, an unsigned machine integer
  whose width the sources at hand do not fix, so it is a word of any length.  \<open>pushed\<close>
  are the events pushed to the logging thread and \<open>rendered\<close> the frame numbers passed to
  \<open>m_overlay.render\<close>, both oldest first.
\<close>

record 'a window_monitor =
  m_id :: nat
  gpuResourcesInitialized :: bool
  gpuTimerAvailable :: bool
  overlay_flag :: bool
  logging_flag :: bool
  windowEvent_flag :: bool
  frameEvent_flag :: bool
  m_frameSize :: QSize
  frame_number :: 'a
  frame_deltaTime :: nat
  frame_syncTime :: nat
  frame_renderTime :: nat
  frame_gpuTime :: nat
  frame_swapTime :: nat
  frame_timeStamp :: nat
  pushed :: "'a monitor_event list"
  rendered :: "'a list"

text \<open>
  The render-pipeline callbacks, with what they read from the timers, the clock and the
  window: elapsed nanoseconds, time stamps, the window size.
\<close>

datatype callback =
  SceneGraphInitialized
| SceneGraphInvalidated
| BeforeSynchronizing
| AfterSynchronizing nat
| BeforeRendering QSize nat
| AfterRendering nat nat
| FrameSwapped nat nat nat

definition initializeGpuResources :: "bool \<Rightarrow> 'n::len word window_monitor \<Rightarrow> 'n word window_monitor" where
  "initializeGpuResources noGpuTimer m =
     m\<lparr>frame_number := 0, gpuResourcesInitialized := True,
       gpuTimerAvailable := (gpuTimerAvailable m \<or> \<not> noGpuTimer)\<rparr>"

definition finalizeGpuResources :: "'n::len word window_monitor \<Rightarrow> 'n word window_monitor" where
  "finalizeGpuResources m =
     m\<lparr>frame_number := 0, gpuResourcesInitialized := False, gpuTimerAvailable := False\<rparr>"

definition windowSceneGraphInitialized :: "bool \<Rightarrow> 'n::len word window_monitor \<Rightarrow> 'n word window_monitor" where
  "windowSceneGraphInitialized noGpuTimer m =
     (if \<not> gpuResourcesInitialized m then initializeGpuResources noGpuTimer m else m)"

definition windowSceneGraphInvalidated :: "'n::len word window_monitor \<Rightarrow> 'n word window_monitor" where
  "windowSceneGraphInvalidated m =
     (if gpuResourcesInitialized m then finalizeGpuResources m else m)"

definition windowBeforeSynchronizing :: "'n::len word window_monitor \<Rightarrow> 'n word window_monitor" where
  "windowBeforeSynchronizing m = m"

definition windowAfterSynchronizing :: "nat \<Rightarrow> 'n::len word window_monitor \<Rightarrow> 'n word window_monitor" where
  "windowAfterSynchronizing nsecsElapsed m =
     (if gpuResourcesInitialized m then m\<lparr>frame_syncTime := nsecsElapsed\<rparr> else m)"

definition windowBeforeRendering :: "QSize \<Rightarrow> nat \<Rightarrow> 'n::len word window_monitor \<Rightarrow> 'n word window_monitor" where
  "windowBeforeRendering frameSize timeStamp m =
     (if frameSize \<noteq> m_frameSize m then
        let m1 = m\<lparr>m_frameSize := frameSize\<rparr> in
        if logging_flag m1 \<and> windowEvent_flag m1 then
          m1\<lparr>pushed := pushed m1 @
               [WindowEvent timeStamp (m_id m1) (size_width frameSize) (size_height frameSize)
                  Resized]\<rparr>
        else m1
      else m)"

definition windowAfterRendering :: "nat \<Rightarrow> nat \<Rightarrow> 'n::len word window_monitor \<Rightarrow> 'n word window_monitor" where
  "windowAfterRendering nsecsElapsed gpuElapsed m =
     (if gpuResourcesInitialized m then
        let m1 = m\<lparr>frame_renderTime := nsecsElapsed,
                   frame_gpuTime := (if gpuTimerAvailable m then gpuElapsed else 0),
                   frame_number := frame_number m + 1\<rparr> in
        if overlay_flag m1 then m1\<lparr>rendered := rendered m1 @ [frame_number m1]\<rparr> else m1
      else m)"

definition windowFrameSwapped ::
  "bool \<Rightarrow> nat \<Rightarrow> nat \<Rightarrow> nat \<Rightarrow> 'n::len word window_monitor \<Rightarrow> 'n word window_monitor" where
  "windowFrameSwapped noGpuTimer deltaElapsed nsecsElapsed timeStamp m =
     (if gpuResourcesInitialized m then
        let m1 = m\<lparr>frame_deltaTime := deltaElapsed\<rparr> in
        if logging_flag m1 \<and> frameEvent_flag m1 then
          let m2 = m1\<lparr>frame_swapTime := nsecsElapsed, frame_timeStamp := timeStamp\<rparr> in
          m2\<lparr>pushed := pushed m2 @
               [FrameEvent (frame_timeStamp m2) (m_id m2) (frame_number m2) (frame_deltaTime m2)
                  (frame_syncTime m2) (frame_renderTime m2) (frame_gpuTime m2) (frame_swapTime m2)]\<rparr>
        else m1
      else initializeGpuResources noGpuTimer m)"

fun deliver :: "bool \<Rightarrow> callback \<Rightarrow> 'n::len word window_monitor \<Rightarrow> 'n word window_monitor" where
  "deliver noGpuTimer SceneGraphInitialized m = windowSceneGraphInitialized noGpuTimer m"
| "deliver noGpuTimer SceneGraphInvalidated m = windowSceneGraphInvalidated m"
| "deliver noGpuTimer BeforeSynchronizing m = windowBeforeSynchronizing m"
| "deliver noGpuTimer (AfterSynchronizing t) m = windowAfterSynchronizing t m"
| "deliver noGpuTimer (BeforeRendering sz ts) m = windowBeforeRendering sz ts m"
| "deliver noGpuTimer (AfterRendering t g) m = windowAfterRendering t g m"
| "deliver noGpuTimer (FrameSwapped d t ts) m = windowFrameSwapped noGpuTimer d t ts m"

definition deliver_all :: "bool \<Rightarrow> callback list \<Rightarrow> 'n::len word window_monitor \<Rightarrow> 'n word window_monitor" where
  "deliver_all noGpuTimer cbs m = foldl (\<lambda>m cb. deliver noGpuTimer cb m) m cbs"

text \<open>
  The frame count in words: whether the GPU resources are initialised, and the number of
  \<open>AfterRendering\<close> callbacks since they last were.  Initialising (at
  \<open>SceneGraphInitialized\<close>, or at \<open>FrameSwapped\<close>, when they are not) and finalising (at
  \<open>SceneGraphInvalidated\<close>, when they are) both start the count at 0.
\<close>

fun count_step :: "bool \<times> nat \<Rightarrow> callback \<Rightarrow> bool \<times> nat" where
  "count_step (initialized, n) SceneGraphInitialized = (if initialized then (True, n) else (True, 0))"
| "count_step (initialized, n) SceneGraphInvalidated = (if initialized then (False, 0) else (False, n))"
| "count_step (initialized, n) (FrameSwapped d t ts) = (if initialized then (True, n) else (True, 0))"
| "count_step (initialized, n) (AfterRendering t g) = (if initialized then (True, n + 1) else (False, n))"
| "count_step (initialized, n) cb = (initialized, n)"

definition frames_since_initialization :: "callback list \<Rightarrow> bool \<times> nat" where
  "frames_since_initialization cbs = foldl count_step (False, 0) cbs"

text \<open>
  A window monitor as its constructor leaves it: frame event zeroed, no GPU resources, and,
  when logging and window events are on, a window event with the state \<open>Shown\<close>, the
  size of the window and the time stamp read from the clock pushed to the logging thread.
\<close>

definition new_window_monitor ::
  "nat \<Rightarrow> bool \<Rightarrow> bool \<Rightarrow> bool \<Rightarrow> bool \<Rightarrow> QSize \<Rightarrow> nat \<Rightarrow> 'n::len word window_monitor" where
  "new_window_monitor ident overlay logging windowEvents frameEvents sz timeStamp =
     \<lparr>m_id = ident, gpuResourcesInitialized = False, gpuTimerAvailable = False,
      overlay_flag = overlay, logging_flag = logging, windowEvent_flag = windowEvents,
      frameEvent_flag = frameEvents, m_frameSize = sz, frame_number = 0,
      frame_deltaTime = 0, frame_syncTime = 0, frame_renderTime = 0, frame_gpuTime = 0,
      frame_swapTime = 0, frame_timeStamp = 0,
      pushed = (if logging \<and> windowEvents
                then [WindowEvent timeStamp ident (size_width sz) (size_height sz) Shown]
                else []),
      rendered = []\<rparr>"

text \<open>
  The destructor, which runs once the GPU resources are finalised: when logging and window
  events are on it pushes a window event with the state \<open>Hidden\<close>.
\<close>

definition delete_window_monitor :: "nat \<Rightarrow> 'n::len word window_monitor \<Rightarrow> 'n word window_monitor" where
  "delete_window_monitor timeStamp m =
     (if logging_flag m \<and> windowEvent_flag m then
        m\<lparr>pushed := pushed m @
             [WindowEvent timeStamp (m_id m) (size_width (m_frameSize m)) (size_height (m_frameSize m))
                Hidden]\<rparr>
      else m)"

section \<open>Logging thread\<close>

definition logQueueSize :: nat where
  "logQueueSize = 16"

text \<open>
  Where the consumer thread is in \<open>LoggingThread::run\<close>: about to lock the mutex at the top of
  the loop, blocked in \<open>m_condition.wait\<close>, holding a dequeued event and its copy of the
  logger list with the mutex released, or out of the loop.  \<open>Underflow\<close> is the failed
  \<open>DASSERT(m_queueSize > 0)\<close>.
\<close>

datatype ('e, 'l) consumer = AtLoopTop | InWait | Logging 'e "'l list" | Exited | Underflow

text \<open>
  The shared state of the thread object.  The two bits of \<open>m_flags\<close> are booleans.
  \<open>woken\<close> records that \<open>wakeOne\<close> has been called since the consumer began to wait:
  a \<open>QWaitCondition\<close> returns from \<open>wait\<close> only then.  \<open>logged\<close> is the sequence of
  calls \<open>loggers[i]->log(event)\<close> made so far, oldest first.
\<close>

record ('e, 'l) logging_thread =
  m_queue :: "'e list"
  m_queueIndex :: nat
  m_queueSize :: nat
  m_loggers :: "'l list"
  joinRequested :: bool
  waiting :: bool
  woken :: bool
  consumer :: "('e, 'l) consumer"
  logged :: "('l \<times> 'e) list"

text \<open>\<open>if (m_flags & Waiting) m_condition.wakeOne();\<close>\<close>

definition wakeIfWaiting :: "('e, 'l) logging_thread \<Rightarrow> ('e, 'l) logging_thread" where
  "wakeIfWaiting s = (if waiting s then s\<lparr>woken := True\<rparr> else s)"

text \<open>
  \<open>push\<close>, the critical section that stores the event.  While the queue is full the caller
  only unlocks, yields and locks again, which changes nothing: \<open>None\<close>.
\<close>

definition push :: "'e \<Rightarrow> ('e, 'l) logging_thread \<Rightarrow> ('e, 'l) logging_thread option" where
  "push event s =
     (if m_queueSize s = logQueueSize then None
      else Some (wakeIfWaiting
        (s\<lparr>m_queue := (m_queue s)[(m_queueIndex s + m_queueSize s) mod logQueueSize := event],
           m_queueSize := m_queueSize s + 1\<rparr>)))"

text \<open>The destructor up to \<open>wait()\<close>: the join request.\<close>

definition requestJoin :: "('e, 'l) logging_thread \<Rightarrow> ('e, 'l) logging_thread" where
  "requestJoin s = wakeIfWaiting (s\<lparr>joinRequested := True\<rparr>)"

definition setLoggers :: "'l list \<Rightarrow> ('e, 'l) logging_thread \<Rightarrow> ('e, 'l) logging_thread option" where
  "setLoggers ls s = (if length ls \<le> maxLoggers then Some (s\<lparr>m_loggers := ls\<rparr>) else None)"

text \<open>
  ``Unqueue oldest events from the log queue'' up to \<open>m_mutex.unlock()\<close>: the event at the
  head and the logger list are copied, the head moves on.
\<close>

definition unqueue :: "('e, 'l) logging_thread \<Rightarrow> ('e, 'l) logging_thread" where
  "unqueue s =
     (if m_queueSize s = 0 then s\<lparr>consumer := Underflow\<rparr>
      else s\<lparr>m_queueIndex := (m_queueIndex s + 1) mod logQueueSize,
             m_queueSize := m_queueSize s - 1,
             consumer := Logging (m_queue s ! m_queueIndex s) (m_loggers s)\<rparr>)"

text \<open>
  One step of the consumer: from the top of the loop to the wait, to the exit or to the
  unlock; from the wait, once woken, to the exit or to the unlock; the calls of the loggers
  on the copied event.  \<open>None\<close>: the consumer cannot move (it is blocked or gone).
\<close>

definition run_step :: "('e, 'l) logging_thread \<Rightarrow> ('e, 'l) logging_thread option" where
  "run_step s =
     (case consumer s of
        AtLoopTop \<Rightarrow>
          if m_queueSize s = 0 then
            if joinRequested s then Some (s\<lparr>consumer := Exited\<rparr>)
            else Some (s\<lparr>waiting := True, woken := False, consumer := InWait\<rparr>)
          else Some (unqueue s)
      | InWait \<Rightarrow>
          if \<not> woken s then None
          else if m_queueSize s = 0 \<and> joinRequested s then Some (s\<lparr>woken := False, consumer := Exited\<rparr>)
          else Some (unqueue (s\<lparr>woken := False, waiting := False\<rparr>))
      | Logging event ls \<Rightarrow>
          Some (s\<lparr>logged := logged s @ map (\<lambda>l. (l, event)) ls, consumer := AtLoopTop\<rparr>)
      | Exited \<Rightarrow> None
      | Underflow \<Rightarrow> None)"

text \<open>
  What the threads do to the shared state, one critical section (or one round of logger
  calls) at a time; an interleaving is a list of these.
\<close>

datatype ('e, 'l) action = Push 'e | Run | Join | SetLoggers "'l list"

fun step :: "('e, 'l) action \<Rightarrow> ('e, 'l) logging_thread \<Rightarrow> ('e, 'l) logging_thread option" where
  "step (Push event) s = push event s"
| "step Run s = run_step s"
| "step Join s = Some (requestJoin s)"
| "step (SetLoggers ls) s = setLoggers ls s"

fun exec :: "('e, 'l) action list \<Rightarrow> ('e, 'l) logging_thread \<Rightarrow> ('e, 'l) logging_thread option" where
  "exec [] s = Some s"
| "exec (a # as) s = (case step a s of None \<Rightarrow> None | Some s' \<Rightarrow> exec as s')"

text \<open>
  The thread object after its constructor and the first \<open>setLoggers\<close> of \<open>start()\<close>:
  an empty queue in uninitialised memory \<open>q\<close>.
\<close>

definition started_thread :: "'e list \<Rightarrow> 'l list \<Rightarrow> ('e, 'l) logging_thread" where
  "started_thread q ls =
     \<lparr>m_queue = q, m_queueIndex = 0, m_queueSize = 0, m_loggers = ls, joinRequested = False,
      waiting = False, woken = False, consumer = AtLoopTop, logged = []\<rparr>"

text \<open>The events of an interleaving in the order in which they were pushed.\<close>

fun pushes :: "('e, 'l) action list \<Rightarrow> 'e list" where
  "pushes [] = []"
| "pushes (Push e # as) = e # pushes as"
| "pushes (a # as) = pushes as"

text \<open>The events in the queue, oldest first, and those the consumer has yet to log.\<close>

definition queued :: "('e, 'l) logging_thread \<Rightarrow> 'e list" where
  "queued s = map (\<lambda>k. m_queue s ! ((m_queueIndex s + k) mod logQueueSize)) [0..<m_queueSize s]"

definition in_flight :: "('e, 'l) logging_thread \<Rightarrow> 'e list" where
  "in_flight s = (case consumer s of Logging e ls \<Rightarrow> [e] | _ \<Rightarrow> []) @ queued s"

text \<open>The logger calls for a sequence of events, each with the logger list it went to.\<close>

definition fan_out :: "('e \<times> 'l list) list \<Rightarrow> ('l \<times> 'e) list" where
  "fan_out xs = concat (map (\<lambda>(e, ls). map (\<lambda>l. (l, e)) ls) xs)"

text \<open>What one logger has seen.\<close>

definition seen_by :: "'l \<Rightarrow> ('e, 'l) logging_thread \<Rightarrow> 'e list" where
  "seen_by l s = map snd (filter (\<lambda>c. fst c = l) (logged s))"


text \<open>The logger lists that an interleaving installs.\<close>

definition installed :: "('e, 'l) action list \<Rightarrow> 'l list set" where
  "installed as = {ls. SetLoggers ls \<in> set as}"

definition ring_ok :: "('e, 'l) logging_thread \<Rightarrow> bool" where
  "ring_ok s \<longleftrightarrow>
     length (m_queue s) = logQueueSize \<and> m_queueIndex s < logQueueSize
     \<and> m_queueSize s \<le> logQueueSize"

text \<open>
  \<open>delivered_in_order L P s\<close>: of the pushed events \<open>P\<close>, those no longer in flight
  have been logged, in the order of \<open>P\<close>, each to one of the logger lists in \<open>L\<close>.
\<close>

definition delivered_in_order :: "'l list set \<Rightarrow> 'e list \<Rightarrow> ('e, 'l) logging_thread \<Rightarrow> bool" where
  "delivered_in_order L P s \<longleftrightarrow>
     (\<exists>D snaps. P = D @ in_flight s \<and> length snaps = length D \<and> set snaps \<subseteq> L
        \<and> logged s = fan_out (zip D snaps))"

definition consumer_ok :: "'l list set \<Rightarrow> ('e, 'l) logging_thread \<Rightarrow> bool" where
  "consumer_ok L s \<longleftrightarrow>
     ring_ok s \<and> consumer s \<noteq> Underflow \<and> m_loggers s \<in> L
     \<and> (\<forall>e ls. consumer s = Logging e ls \<longrightarrow> ls \<in> L)
     \<and> (consumer s = InWait \<longrightarrow> waiting s)
     \<and> (consumer s = InWait \<and> woken s \<longrightarrow> 0 < m_queueSize s \<or> joinRequested s)
     \<and> (consumer s = Exited \<longrightarrow> joinRequested s)"

definition thread_inv :: "'l list set \<Rightarrow> 'e list \<Rightarrow> ('e, 'l) logging_thread \<Rightarrow> bool" where
  "thread_inv L P s \<longleftrightarrow> consumer_ok L s \<and> delivered_in_order L P s"

definition steps_to_exit :: "('e, 'l) logging_thread \<Rightarrow> nat" where
  "steps_to_exit s =
     2 * m_queueSize s + (case consumer s of Logging e ls \<Rightarrow> 1 | _ \<Rightarrow> 0) + 1"

text \<open>
  No wakeup is lost: a consumer blocked in \<open>wait\<close> while the queue holds an event or
  the join is requested has been woken.  \<open>steps_to_deliver\<close> is the number of consumer
  steps after which everything in flight is logged.
\<close>

definition wakeup_kept :: "('e, 'l) logging_thread \<Rightarrow> bool" where
  "wakeup_kept s \<longleftrightarrow> (consumer s = InWait \<and> (0 < m_queueSize s \<or> joinRequested s) \<longrightarrow> woken s)"

definition steps_to_deliver :: "('e, 'l) logging_thread \<Rightarrow> nat" where
  "steps_to_deliver s = 2 * m_queueSize s + (case consumer s of Logging e ls \<Rightarrow> 1 | _ \<Rightarrow> 0)"

fun action_pushes :: "('e, 'l) action \<Rightarrow> 'e list" where
  "action_pushes (Push e) = [e]"
| "action_pushes a = []"

text \<open>Two interleavings to try the thread on: one that leaves the consumer with an event
  in its hands and two more in the queue, and one in which sixteen events fill the queue
  before the consumer makes room for a seventeenth.\<close>

definition busy_schedule :: "(nat, string) action list" where
  "busy_schedule = [Push 1, Push 2, Run, Run, Push 3, Run, Push 4]"

definition full_queue_schedule :: "(nat, string) action list" where
  "full_queue_schedule =
     [Push 1, Push 2, Push 3, Push 4, Push 5, Push 6, Push 7, Push 8, Push 9, Push 10, Push 11, Push 12, Push 13, Push 14, Push 15, Push 16,
      Run, Run, Push 17]"

definition two_loggers :: "(nat, string) logging_thread" where
  "two_loggers = started_thread (replicate 16 0) [''a'', ''b'']"

section \<open>Template parser (overlay)\<close>

definition keywordInfo :: "string list" where
  "keywordInfo = [''qtVersion'', ''qtPlatform'', ''glVersion'', ''cpuModel'', ''gpuModel'']"

definition maxKeywordStringSize :: nat where "maxKeywordStringSize = 128"
definition maxParsedTextSize :: nat where "maxParsedTextSize = 1024"
definition maxMetricsPerType :: nat where "maxMetricsPerType = 16"

definition NUL :: char where "NUL = CHR 0x00"

text \<open>
  The parser writes through raw pointers into two allocations, \<open>m_parsedText\<close>
  (\<open>maxParsedTextSize\<close> bytes) and the scratch buffer \<open>m_buffer\<close> (\<open>bufferSize\<close> bytes),
  neither of them initialised.  An allocation is a function from offsets to bytes together
  with its size; an access at or beyond the size is an error value, so that a write or read
  past the end shows in the result.
\<close>

type_synonym memory = "nat \<Rightarrow> char"

datatype memory_error = WriteOutOfBounds nat | ReadOutOfBounds nat

definition store :: "memory \<Rightarrow> nat \<Rightarrow> char \<Rightarrow> memory_error + memory" where
  "store mem k c =
     (if k < maxParsedTextSize then Inr (mem(k := c)) else Inl (WriteOutOfBounds k))"

text \<open>\<open>memset(&m_parsedText[p], c, n)\<close>\<close>

primrec memset :: "memory \<Rightarrow> nat \<Rightarrow> char \<Rightarrow> nat \<Rightarrow> memory_error + memory" where
  "memset mem p c 0 = Inr mem"
| "memset mem p c (Suc n) =
     (case store mem p c of Inl e \<Rightarrow> Inl e | Inr mem' \<Rightarrow> memset mem' (Suc p) c n)"

text \<open>
  \<open>strcpy(&m_parsedText[dst], keywordBuffer)\<close> from the byte \<open>k\<close> of the source on: bytes are
  copied up to and including the first zero byte of the source, wherever that is.
\<close>

function strcpy :: "memory \<Rightarrow> nat \<Rightarrow> memory \<Rightarrow> nat \<Rightarrow> memory_error + memory" where
  "strcpy mem dst src k =
     (if bufferSize \<le> k then Inl (ReadOutOfBounds k)
      else case store mem (dst + k) (src k) of
             Inl e \<Rightarrow> Inl e
           | Inr mem' \<Rightarrow> if src k = NUL then Inr mem' else strcpy mem' dst src (k + 1))"
  by pat_completeness auto
termination
  by (relation "measure (\<lambda>(mem, dst, src, k). bufferSize - k)") auto

declare strcpy.simps [simp del]

text \<open>
  \<open>keywordString(index, buffer, maxKeywordStringSize)\<close> stores the keyword's string at the
  start of the buffer, without a terminating zero byte, and returns its size.  Which string
  that is depends on Qt, on the OpenGL driver and on \<open>/proc/cpuinfo\<close>: it is the parameter
  \<open>kw\<close>, cut to the size of the buffer as every branch of the function does.
\<close>

definition keywordString :: "(nat \<Rightarrow> string) \<Rightarrow> nat \<Rightarrow> memory \<Rightarrow> memory \<times> nat" where
  "keywordString kw j buffer =
     (let s = take maxKeywordStringSize (kw j)
      in ((\<lambda>k. if k < length s then s ! k else buffer k), length s))"

text \<open>The template as a C string: \<open>text[k]\<close>, with the terminating zero at \<open>textSize\<close>.\<close>

definition text_at :: "string \<Rightarrow> nat \<Rightarrow> char" where
  "text_at t k = (if k < length t then t ! k else NUL)"

text \<open>\<open>!strncmp(&text[p], name, size)\<close> for a name of that size without zero bytes.\<close>

definition strncmp_eq :: "string \<Rightarrow> nat \<Rightarrow> string \<Rightarrow> bool" where
  "strncmp_eq t p name \<longleftrightarrow> take (length name) (drop p t) = name"

definition isdigit :: "char \<Rightarrow> bool" where
  "isdigit c \<longleftrightarrow> (48::nat) \<le> of_char c \<and> (of_char c :: nat) \<le> 57"

definition qBound :: "int \<Rightarrow> int \<Rightarrow> int \<Rightarrow> int" where
  "qBound lo v hi = max lo (min hi v)"

text \<open>The optional width of a metric placeholder: the width (or -1) and \<open>widthOffset\<close>.\<close>

definition parse_width :: "string \<Rightarrow> nat \<Rightarrow> int \<times> nat" where
  "parse_width t p =
     (if \<not> isdigit (text_at t p) then (-1, 0)
      else let w1 = int (of_char (text_at t p)) - 48 in
        if isdigit (text_at t (p + 1))
        then (qBound 1 (w1 * 10 + int (of_char (text_at t (p + 1))) - 48) (int maxMetricWidth), 2)
        else (qBound 1 w1 (int maxMetricWidth), 1))"

text \<open>The two searches, each a \<open>for\<close> loop left by \<open>break\<close> at the first hit.\<close>

definition find_keyword :: "string \<Rightarrow> nat \<Rightarrow> nat option" where
  "find_keyword t p = find (\<lambda>j. strncmp_eq t p (keywordInfo ! j)) [0..<length keywordInfo]"

definition find_metric :: "string \<Rightarrow> nat \<Rightarrow> (event_type \<Rightarrow> metric_slot list) \<Rightarrow> nat option" where
  "find_metric t p metrics =
     find (\<lambda>j. case metricInfo ! j of (name, defaultWidth, ty) \<Rightarrow>
                 length (metrics ty) < maxMetricsPerType \<and> strncmp_eq t p name)
       [0..<length metricInfo]"

text \<open>
  The overlay's parse state: the two allocations, the slot table \<open>m_metrics\<close> (the slots of
  an event type in binding order, \<open>m_metricsSize\<close> being the length) and the local
  \<open>characters\<close>.
\<close>

record overlay_text =
  m_parsedText :: memory
  m_buffer :: memory
  m_metrics :: "event_type \<Rightarrow> metric_slot list"
  characters :: nat

text \<open>
  The body of the \<open>for\<close> loop of \<open>parseText\<close> at index \<open>i\<close>, up to the check of the
  maximum size: the index before the loop's \<open>i++\<close>, and the state.
\<close>

definition parse_at ::
  "(nat \<Rightarrow> string) \<Rightarrow> string \<Rightarrow> nat \<Rightarrow> overlay_text \<Rightarrow> memory_error + nat \<times> overlay_text" where
  "parse_at kw t i st =
     (if text_at t i \<noteq> CHR ''%'' then
        case store (m_parsedText st) (characters st) (text_at t i) of
          Inl e \<Rightarrow> Inl e
        | Inr mem \<Rightarrow> Inr (i, st\<lparr>m_parsedText := mem, characters := characters st + 1\<rparr>)
      else if text_at t (i + 1) = CHR ''%'' then
        case store (m_parsedText st) (characters st) (CHR ''%'') of
          Inl e \<Rightarrow> Inl e
        | Inr mem \<Rightarrow> Inr (i + 1, st\<lparr>m_parsedText := mem, characters := characters st + 1\<rparr>)
      else
        case find_keyword t (i + 1) of
          Some j \<Rightarrow>
            let (buffer, stringSize) = keywordString kw j (m_buffer st);
                st1 = st\<lparr>m_buffer := buffer\<rparr>
            in if int stringSize < int maxParsedTextSize - int (characters st) then
                 case strcpy (m_parsedText st) (characters st) buffer 0 of
                   Inl e \<Rightarrow> Inl e
                 | Inr mem \<Rightarrow>
                     Inr (i + length (keywordInfo ! j),
                          st1\<lparr>m_parsedText := mem, characters := characters st + stringSize\<rparr>)
               else Inr (i, st1)
        | None \<Rightarrow>
            let (width, widthOffset) = parse_width t (i + 1) in
            case find_metric t (i + 1 + widthOffset) (m_metrics st) of
              None \<Rightarrow> Inr (i, st)
            | Some j \<Rightarrow>
                let (name, defaultWidth, ty) = metricInfo ! j;
                    width = (if width = -1 then int defaultWidth else width)
                in if width < int maxParsedTextSize - int (characters st) then
                     case memset (m_parsedText st) (characters st) (CHR ''?'') (nat width) of
                       Inl e \<Rightarrow> Inl e
                     | Inr mem \<Rightarrow>
                         Inr (i + widthOffset + length name,
                              st\<lparr>m_parsedText := mem,
                                 m_metrics := (m_metrics st)
                                   (ty := m_metrics st ty @
                                      [\<lparr>slot_index = j, slot_textIndex = characters st,
                                        slot_width = nat width\<rparr>]),
                                 characters := characters st + nat width\<rparr>)
                   else Inr (i, st))"

text \<open>
  The loop \<open>for (int i = 0; i <= textSize; i++)\<close> from index \<open>i\<close> on, with its exit once the
  maximum size is reached.
\<close>

function parseLoop ::
  "(nat \<Rightarrow> string) \<Rightarrow> string \<Rightarrow> nat \<Rightarrow> overlay_text \<Rightarrow> memory_error + overlay_text" where
  "parseLoop kw t i st =
     (if i \<le> length t then
        case parse_at kw t i st of
          Inl e \<Rightarrow> Inl e
        | Inr (i', st') \<Rightarrow>
            if characters st' \<ge> maxParsedTextSize - 1 then
              case store (m_parsedText st') (maxParsedTextSize - 1) NUL of
                Inl e \<Rightarrow> Inl e
              | Inr mem \<Rightarrow> Inr (st'\<lparr>m_parsedText := mem\<rparr>)
            else parseLoop kw t (i' + 1) st'
      else Inr st)"
  by pat_completeness auto
termination
proof (relation "measure (\<lambda>(kw, t, i, st). length t + 1 - i)")
  show "wf (measure (\<lambda>(kw, t, i, st). length t + 1 - i))" by simp
next
  fix kw t i st x2 x y
  assume "i \<le> length t" "parse_at kw t i st = Inr x2" "(x, y) = x2"
  then have "parse_at kw t i st = Inr (x, y)" by simp
  then have "i \<le> x"
    by (auto simp: parse_at_def Let_def split: if_splits sum.splits option.splits prod.splits)
  then show "((kw, t, x + 1, y), kw, t, i, st) \<in> measure (\<lambda>(kw, t, i, st). length t + 1 - i)"
    using \<open>i \<le> length t\<close> by simp
qed

declare parseLoop.simps [simp del]

text \<open>
  The state in which \<open>parseText\<close> starts on a freshly constructed overlay: no slots yet
  (\<open>m_metricsSize{}\<close>), both allocations with whatever they hold, \<open>characters = 0\<close>.
\<close>

definition new_text :: "memory \<Rightarrow> memory \<Rightarrow> overlay_text" where
  "new_text parsedText buffer =
     \<lparr>m_parsedText = parsedText, m_buffer = buffer, m_metrics = (\<lambda>ty. []), characters = 0\<rparr>"

definition parseText ::
  "(nat \<Rightarrow> string) \<Rightarrow> string \<Rightarrow> memory \<Rightarrow> memory \<Rightarrow> memory_error + overlay_text" where
  "parseText kw t parsedText buffer = parseLoop kw t 0 (new_text parsedText buffer)"

text \<open>The text that \<open>setText(m_parsedText)\<close> receives: the bytes before the first zero byte.\<close>

definition c_string :: "memory \<Rightarrow> string" where
  "c_string mem = takeWhile (\<lambda>c. c \<noteq> NUL) (map mem [0..<maxParsedTextSize])"

definition parsed_string :: "memory_error + overlay_text \<Rightarrow> string option" where
  "parsed_string r = (case r of Inl e \<Rightarrow> None | Inr st \<Rightarrow> Some (c_string (m_parsedText st)))"

definition bound_slots :: "memory_error + overlay_text \<Rightarrow> event_type \<Rightarrow> metric_slot list" where
  "bound_slots r ty = (case r of Inl e \<Rightarrow> [] | Inr st \<Rightarrow> m_metrics st ty)"

section \<open>What a formatted field should hold\<close>

text \<open>The decimal numeral of a natural number, most significant digit first.\<close>

fun decimal :: "nat \<Rightarrow> string" where
  "decimal n = (if n < 10 then [digit_char n] else decimal (n div 10) @ [digit_char (n mod 10)])"

declare decimal.simps [simp del]

text \<open>
  \<open>right_aligned text w s\<close>: the buffer \<open>text\<close> in which the field \<open>text[0..w)\<close> has
  received \<open>s\<close> flush right; when \<open>s\<close> is longer than the field only its last \<open>w\<close>
  characters are there.  Everything else is as it was.
\<close>

definition right_aligned :: "char list \<Rightarrow> nat \<Rightarrow> string \<Rightarrow> char list" where
  "right_aligned text w s =
     (let k = min w (length s) in take (w - k) text @ drop (length s - k) s @ drop w text)"

text \<open>Milliseconds with two decimals, from a value in units of \<open>10\<^sup>-\<^sup>5\<close> s.\<close>

definition milliseconds_text :: "nat \<Rightarrow> string" where
  "milliseconds_text c =
     decimal (c div 100) @ [decimalPoint, digit_char (c div 10 mod 10), digit_char (c mod 10)]"

text \<open>Reading a field back: leading blanks are skipped, then the digits are accumulated.\<close>

definition digit_value :: "char \<Rightarrow> nat" where
  "digit_value c = of_char c - of_char (CHR ''0'')"

definition parse_decimal :: "string \<Rightarrow> nat" where
  "parse_decimal s =
     foldl (\<lambda>acc c. 10 * acc + digit_value c) 0 (dropWhile (\<lambda>c. c = CHR '' '') s)"


text \<open>A field of \<open>w\<close> characters showing \<open>s\<close> flush right, blank-padded, cut on the left.\<close>

definition pad_left :: "nat \<Rightarrow> string \<Rightarrow> string" where
  "pad_left w s = replicate (w - length s) (CHR '' '') @ drop (length s - w) s"

section \<open>What the parser should produce\<close>

text \<open>
  For stating what the parser has done: memory in which the bytes of \<open>s\<close> lie from offset
  \<open>p\<close> on, the state after \<open>s\<close> has been appended to the produced text, the state after
  a slot of metric \<open>j\<close> has been bound with \<open>n\<close> question marks reserved for it, and the
  offset of the first zero byte of the scratch buffer.
\<close>

definition write_string :: "memory \<Rightarrow> nat \<Rightarrow> string \<Rightarrow> memory" where
  "write_string mem p s = (\<lambda>k. if p \<le> k \<and> k < p + length s then s ! (k - p) else mem k)"

definition emit :: "overlay_text \<Rightarrow> string \<Rightarrow> overlay_text" where
  "emit st s =
     st\<lparr>m_parsedText := write_string (m_parsedText st) (characters st) s,
        characters := characters st + length s\<rparr>"

definition bind_slot :: "overlay_text \<Rightarrow> nat \<Rightarrow> event_type \<Rightarrow> nat \<Rightarrow> overlay_text" where
  "bind_slot st j ty n =
     (emit st (replicate n (CHR ''?'')))
       \<lparr>m_metrics := (m_metrics st)
          (ty := m_metrics st ty @ [\<lparr>slot_index = j, slot_textIndex = characters st, slot_width = n\<rparr>])\<rparr>"

primrec bind_frameNumbers :: "nat \<Rightarrow> overlay_text \<Rightarrow> overlay_text" where
  "bind_frameNumbers 0 st = st"
| "bind_frameNumbers (Suc n) st = bind_frameNumbers n (bind_slot st 6 Frame 7)"

definition first_nul :: "memory \<Rightarrow> nat option" where
  "first_nul buffer = find (\<lambda>k. buffer k = NUL) [0..<bufferSize]"

text \<open>
  A placeholder at index \<open>i\<close> that fails to bind in the state \<open>st\<close>.  Either it names a
  keyword whose string does not fit into what is left of the parsed text; or no metric can
  take it, because no metric name follows the optional width or every metric so named
  belongs to an event type that already has \<open>maxMetricsPerType\<close> slots; or the first metric
  that can take it is too wide for what is left of the parsed text.
\<close>

definition metric_width :: "string \<Rightarrow> nat \<Rightarrow> nat \<Rightarrow> int" where
  "metric_width t i j =
     (let (width, widthOffset) = parse_width t (i + 1);
          (name, defaultWidth, ty) = metricInfo ! j
      in if width = -1 then int defaultWidth else width)"

definition fails_to_bind :: "(nat \<Rightarrow> string) \<Rightarrow> string \<Rightarrow> nat \<Rightarrow> overlay_text \<Rightarrow> bool" where
  "fails_to_bind kw t i st \<longleftrightarrow>
     (case find_keyword t (i + 1) of
        Some j \<Rightarrow>
          int maxParsedTextSize - int (characters st) \<le> int (snd (keywordString kw j (m_buffer st)))
      | None \<Rightarrow>
          (case find_metric t (i + 1 + snd (parse_width t (i + 1))) (m_metrics st) of
             None \<Rightarrow> True
           | Some j \<Rightarrow> int maxParsedTextSize - int (characters st) \<le> metric_width t i j))"

text \<open>
  The state in which the loop stops once the maximum size is reached (\<open>cut_at_capacity\<close>:
  the terminator is stored in the last byte), and example inputs.  A template whose
  placeholder \<open>%9frameNumber\<close> comes after 1015 characters, keyword strings as a desktop
  with Qt 5.9.1 on X11 reports them, both allocations filled with zero bytes, a template of
  17 \<open>%frameNumber\<close> placeholders, and a template of 950 characters: \<open>%gpuModel\<close>, 931
  dashes, \<open>%qtVersion\<close>.  The last two definitions are the scratch buffer after
  \<open>keywordString\<close> has stored the GPU model in it, and after it has then stored the Qt
  version over the start of that.
\<close>

definition cut_at_capacity :: "overlay_text \<Rightarrow> overlay_text" where
  "cut_at_capacity st = st\<lparr>m_parsedText := (m_parsedText st)(maxParsedTextSize - 1 := NUL)\<rparr>"

definition cut_template :: string where
  "cut_template = replicate 1015 (CHR ''a'') @ ''%9frameNumber''"

definition zeroed :: memory where
  "zeroed = (\<lambda>k. NUL)"

definition example_keywords :: "nat \<Rightarrow> string" where
  "example_keywords j =
     [''Qt 5.9.1'', ''xcb'', ''OpenGL 4.5 (Core Profile) Mesa 17.2.8'',
      ''Intel(R) Core(TM) i7-4770 CPU @ 3.40GHz (8 cores)'',
      ''X.Org AMD Radeon RX 580 Series (polaris10, LLVM 15.0.7, DRM 3.49, 6.2.0-39-generic)''] ! j"

definition seventeen_frame_placeholders :: string where
  "seventeen_frame_placeholders = concat (replicate 17 ''%frameNumber'')"

definition overflow_template :: string where
  "overflow_template = ''%gpuModel'' @ replicate 931 (CHR ''-'') @ ''%qtVersion''"

definition gpu_buffer :: memory where
  "gpu_buffer = fst (keywordString example_keywords 4 zeroed)"

definition qt_buffer :: memory where
  "qt_buffer = fst (keywordString example_keywords 0 gpu_buffer)"

section \<open>Properties of the formatters\<close>

lemma digit_char_numerals:
  "digit_char 0 = CHR ''0''" "digit_char 1 = CHR ''1''" "digit_char 2 = CHR ''2''"
  "digit_char 3 = CHR ''3''" "digit_char 4 = CHR ''4''" "digit_char 5 = CHR ''5''"
  "digit_char 6 = CHR ''6''" "digit_char 7 = CHR ''7''" "digit_char 8 = CHR ''8''"
  "digit_char 9 = CHR ''9''"
  by code_simp+

lemma digit_value_digit_char: "d < 10 \<Longrightarrow> digit_value (digit_char d) = d"
  by (simp add: digit_value_def digit_char_def)

lemma of_char_digit_char: "d < 10 \<Longrightarrow> (of_char (digit_char d) :: nat) = 48 + d"
  by (simp add: digit_char_def)

lemma digit_char_not_blank: "d < 10 \<Longrightarrow> digit_char d \<noteq> CHR '' ''"
proof
  assume "d < 10" and "digit_char d = CHR '' ''"
  then have "(of_char (CHR '' '') :: nat) = 48 + d"
    using of_char_digit_char by metis
  then show False by simp
qed

lemma length_right_aligned: "w \<le> length text \<Longrightarrow> length (right_aligned text w s) = length text"
  by (auto simp: right_aligned_def Let_def min_def)

lemma right_aligned_Nil: "right_aligned text w [] = text"
  by (simp add: right_aligned_def)

lemma right_aligned_suffix:
  "w \<le> length s2 \<Longrightarrow> right_aligned text w (s1 @ s2) = right_aligned text w s2"
  by (simp add: right_aligned_def min_def)

lemma drop_right_aligned: "w \<le> length text \<Longrightarrow> drop w (right_aligned text w s) = drop w text"
proof -
  assume w: "w \<le> length text"
  let ?k = "min w (length s)"
  have "length (take (w - ?k) text @ drop (length s - ?k) s) = w"
    using w by (cases "w \<le> length s") auto
  then show ?thesis
    unfolding right_aligned_def Let_def
    by (metis append.assoc append_eq_conv_conj)
qed

lemma poke_right_aligned:
  assumes "length s < W" "W \<le> length text"
  shows "poke (right_aligned text W s) (int (W - length s) - 1) c = Some (right_aligned text W (c # s))"
proof -
  let ?n = "W - length s"
  have n: "0 < ?n" "?n \<le> length text" using assms by auto
  have ra: "right_aligned text W s = take ?n text @ s @ drop W text"
    using assms by (simp add: right_aligned_def min_def)
  have ra': "right_aligned text W (c # s) = take (?n - 1) text @ (c # s) @ drop W text"
    using assms by (auto simp: right_aligned_def min_def Let_def)
  have idx: "nat (int ?n - 1) = ?n - 1" by simp
  have tk: "take ?n text = take (?n - 1) text @ [text ! (?n - 1)]"
    using n by (metis Suc_diff_1 take_Suc_conv_app_nth Suc_le_eq)
  have lt: "length (take (?n - 1) text) = ?n - 1" using n by simp
  have "(take ?n text @ s @ drop W text)[?n - 1 := c] = take (?n - 1) text @ (c # s) @ drop W text"
    unfolding tk using lt by (simp add: list_update_append)
  moreover have "0 \<le> int ?n - 1 \<and> int ?n - 1 < int (length (right_aligned text W s))"
    using n assms by (simp add: length_right_aligned)
  ultimately show ?thesis
    unfolding poke_def ra ra' using idx n by (simp add: ra)
qed

lemma min_shift: "0 < n - 1 \<Longrightarrow> n - 1 - min (n - 1) L = n - min n (Suc L)" for n L :: nat
  by (cases "n - 1 \<le> L") (auto simp: min_def)

lemma min_shift3: "3 < W \<Longrightarrow> W - 3 - min (W - 3) L = W - min W (L + 3)" for W L :: nat
  by (cases "W - 3 \<le> L") (auto simp: min_def)

lemma length_decimal_pos: "0 < length (decimal n)"
  by (subst decimal.simps) simp

lemma decimal_step: "10 \<le> n \<Longrightarrow> decimal n = decimal (n div 10) @ [digit_char (n mod 10)]"
  by (subst decimal.simps) simp

lemma decimal_small: "n < 10 \<Longrightarrow> decimal n = [digit_char n]"
  by (subst decimal.simps) simp

lemma decimal_0: "decimal 0 = [CHR ''0'']"
  by (simp add: decimal_small digit_char_numerals)

lemma decimal_snoc: "\<exists>ds. decimal n = ds @ [digit_char (n mod 10)]"
  by (cases "n < 10") (auto simp: decimal_step decimal_small)

lemma integerMetricToText_chain:
  "length s + n = W \<Longrightarrow> 0 < n \<Longrightarrow> W \<le> length text \<Longrightarrow>
   integerMetricToText m (right_aligned text W s) (int n) =
     Some (right_aligned text W (decimal m @ s), int (n - min n (length (decimal m))))"
proof (induction m arbitrary: s n rule: less_induct)
  case (less m)
  let ?d = "digit_char (m mod 10)"
  let ?T' = "right_aligned text W (?d # s)"
  have n: "n = W - length s" "length s < W" using less.prems by auto
  have pk: "poke (right_aligned text W s) (int n - 1) ?d = Some ?T'"
    unfolding n(1) using n(2) less.prems(3) by (rule poke_right_aligned)
  have unfold: "integerMetricToText m (right_aligned text W s) (int n) =
      (if int n - 1 = 0 then Some (?T', 0)
       else if m div 10 \<noteq> 0 then integerMetricToText (m div 10) ?T' (int n - 1)
       else Some (?T', int n - 1))"
    by (subst integerMetricToText.simps) (simp add: pk)
  obtain ds where ds: "decimal m = ds @ [?d]" using decimal_snoc by blast
  have len: "length (decimal m) = Suc (length ds)" by (simp add: ds)
  show ?case
  proof (cases "n = 1")
    case True
    have "right_aligned text W (decimal m @ s) = ?T'"
      using right_aligned_suffix [of W "?d # s" "text" ds] less.prems True by (simp add: ds)
    moreover have "n - min n (length (decimal m)) = 0"
      using True len by simp
    ultimately show ?thesis
      unfolding unfold using True by simp
  next
    case False
    then have n1: "int n - 1 \<noteq> 0" "int n - 1 = int (n - 1)" "0 < n - 1"
      "length (?d # s) + (n - 1) = W"
      using less.prems by auto
    show ?thesis
    proof (cases "m div 10 \<noteq> 0")
      case True
      then have ge: "10 \<le> m" by (simp add: div_eq_0_iff)
      then have lt: "m div 10 < m" by simp
      have IH: "integerMetricToText (m div 10) ?T' (int (n - 1)) =
                Some (right_aligned text W (decimal (m div 10) @ ?d # s),
                  int (n - 1 - min (n - 1) (length (decimal (m div 10)))))"
        using less.IH [OF lt n1(4) n1(3) less.prems(3)] .
      have dec: "decimal m = decimal (m div 10) @ [?d]" using ge by (rule decimal_step)
      have len': "length (decimal m) = Suc (length (decimal (m div 10)))"
        by (subst dec) simp
      have r: "n - 1 - min (n - 1) (length (decimal (m div 10))) = n - min n (length (decimal m))"
        unfolding len' using n1(3) by (rule min_shift)
      have t: "decimal (m div 10) @ ?d # s = decimal m @ s"
        by (subst dec) simp
      show ?thesis
        unfolding unfold using n1(1) True by (simp only: if_False if_True n1(2) IH r t simp_thms)
    next
      case False
      then have "m < 10" by (simp add: div_eq_0_iff)
      then have dec: "decimal m = [?d]" by (simp add: decimal_small)
      have r: "n - min n (length (decimal m)) = n - 1" using n1(3) by (simp add: dec)
      have t: "decimal m @ s = ?d # s" by (simp add: dec)
      show ?thesis
        unfolding unfold using n1(1) False by (simp only: if_False if_True n1(2) r t simp_thms)
    qed
  qed
qed

lemma integerDigits_chain:
  "length s + n = W \<Longrightarrow> 0 < n \<Longrightarrow> W \<le> length text \<Longrightarrow>
   integerDigits m (right_aligned text W s) (int n) =
     Some (right_aligned text W (decimal m @ s), int (n - min n (length (decimal m))))"
proof (induction m arbitrary: s n rule: less_induct)
  case (less m)
  let ?d = "digit_char (m mod 10)"
  let ?T' = "right_aligned text W (?d # s)"
  have n: "n = W - length s" "length s < W" using less.prems by auto
  have pk: "poke (right_aligned text W s) (int n - 1) ?d = Some ?T'"
    unfolding n(1) using n(2) less.prems(3) by (rule poke_right_aligned)
  have unfold: "integerDigits m (right_aligned text W s) (int n) =
      (if m div 10 \<noteq> 0 \<and> int n - 1 > 0 then integerDigits (m div 10) ?T' (int n - 1)
       else Some (?T', int n - 1))"
    by (subst integerDigits.simps) (simp add: pk)
  obtain ds where ds: "decimal m = ds @ [?d]" using decimal_snoc by blast
  have len: "length (decimal m) = Suc (length ds)" by (simp add: ds)
  show ?case
  proof (cases "n = 1")
    case True
    have "right_aligned text W (decimal m @ s) = ?T'"
      using right_aligned_suffix [of W "?d # s" "text" ds] less.prems True by (simp add: ds)
    moreover have "n - min n (length (decimal m)) = 0"
      using True len by simp
    ultimately show ?thesis
      unfolding unfold using True by simp
  next
    case False
    then have n1: "int n - 1 > 0" "int n - 1 = int (n - 1)" "0 < n - 1"
      "length (?d # s) + (n - 1) = W"
      using less.prems by auto
    show ?thesis
    proof (cases "m div 10 \<noteq> 0")
      case True
      then have ge: "10 \<le> m" by (simp add: div_eq_0_iff)
      then have lt: "m div 10 < m" by simp
      have IH: "integerDigits (m div 10) ?T' (int (n - 1)) =
                Some (right_aligned text W (decimal (m div 10) @ ?d # s),
                  int (n - 1 - min (n - 1) (length (decimal (m div 10)))))"
        using less.IH [OF lt n1(4) n1(3) less.prems(3)] .
      have dec: "decimal m = decimal (m div 10) @ [?d]" using ge by (rule decimal_step)
      have len': "length (decimal m) = Suc (length (decimal (m div 10)))"
        by (subst dec) simp
      have r: "n - 1 - min (n - 1) (length (decimal (m div 10))) = n - min n (length (decimal m))"
        unfolding len' using n1(3) by (rule min_shift)
      have t: "decimal (m div 10) @ ?d # s = decimal m @ s"
        by (subst dec) simp
      show ?thesis
        unfolding unfold using n1(1) True by (simp only: if_False if_True n1(2) IH r t simp_thms)
    next
      case False
      then have "m < 10" by (simp add: div_eq_0_iff)
      then have dec: "decimal m = [?d]" by (simp add: decimal_small)
      have r: "n - min n (length (decimal m)) = n - 1" using n1(3) by (simp add: dec)
      have t: "decimal m @ s = ?d # s" by (simp add: dec)
      show ?thesis
        unfolding unfold using n1(1) False by (simp only: if_False if_True n1(2) r t simp_thms)
    qed
  qed
qed

lemma poke_field:
  "length s < W \<Longrightarrow> W \<le> length text \<Longrightarrow> i = int W - int (length s) - 1 \<Longrightarrow>
   poke (right_aligned text W s) i c = Some (right_aligned text W (c # s))"
  using poke_right_aligned [of s W "text" c] by (simp add: of_nat_diff)

lemma poke_field0:
  "0 < W \<Longrightarrow> W \<le> length text \<Longrightarrow> poke text (int W - 1) c = Some (right_aligned text W [c])"
  using poke_field [of "[]" W "text" "int W - 1" c] by (simp add: right_aligned_Nil)

lemma decimalDigits_field:
  assumes "0 < W" "W \<le> length text"
  shows "decimalDigits c text (int W) 0 =
     (if W = 1 then Some (Inl (right_aligned text W [digit_char (c mod 10)]))
      else if c div 10 \<noteq> 0 then
        (if W = 2 then Some (Inl (right_aligned text W
                          [digit_char (c div 10 mod 10), digit_char (c mod 10)]))
         else Some (Inr (c div 100, right_aligned text W
                          [digit_char (c div 10 mod 10), digit_char (c mod 10)], int W - 2, 2)))
      else Some (Inr (0, right_aligned text W [digit_char (c mod 10)], int W - 1, 1)))"
proof -
  let ?d0 = "digit_char (c mod 10)" and ?d1 = "digit_char (c div 10 mod 10)"
  have p0: "poke text (int W - 1) ?d0 = Some (right_aligned text W [?d0])"
    using assms by (rule poke_field0)
  have p1: "1 < W \<Longrightarrow> poke (right_aligned text W [?d0]) (int W - 2) ?d1
               = Some (right_aligned text W [?d1, ?d0])"
    using assms by (intro poke_field) auto
  have second: "1 < W \<Longrightarrow> decimalDigits (c div 10) (right_aligned text W [?d0]) (int W - 1) 1 =
     (if W = 2 then Some (Inl (right_aligned text W [?d1, ?d0]))
      else Some (Inr (c div 100, right_aligned text W [?d1, ?d0], int W - 2, 2)))"
    by (subst decimalDigits.simps) (auto simp: p1 decimalCount_def div_mult2_eq)
  show ?thesis
    using assms second by (subst decimalDigits.simps) (auto simp: p0 decimalCount_def)
qed

lemma timeMetricToText_field:
  assumes "0 < W" "W \<le> length text"
  shows "timeMetricToText metric text (int W) =
     Some (right_aligned text W (milliseconds_text (metric div 10000)),
           int (W - min W (length (milliseconds_text (metric div 10000)))))"
proof -
  define c where "c = metric div 10000"
  let ?d0 = "digit_char (c mod 10)" and ?d1 = "digit_char (c div 10 mod 10)"
  let ?ms = "milliseconds_text c"
  have ms: "?ms = decimal (c div 100) @ [decimalPoint, ?d1, ?d0]"
    by (simp add: milliseconds_text_def)
  have len: "length ?ms = length (decimal (c div 100)) + 3" by (simp add: ms)
  have sfx1: "W = 1 \<Longrightarrow> right_aligned text W ?ms = right_aligned text W [?d0]"
    using right_aligned_suffix [of W "[?d0]" "text" "decimal (c div 100) @ [decimalPoint, ?d1]"]
    by (simp add: ms)
  have sfx2: "W = 2 \<Longrightarrow> right_aligned text W ?ms = right_aligned text W [?d1, ?d0]"
    using right_aligned_suffix [of W "[?d1, ?d0]" "text" "decimal (c div 100) @ [decimalPoint]"]
    by (simp add: ms)
  have sfx3: "W = 3 \<Longrightarrow> right_aligned text W ?ms = right_aligned text W [decimalPoint, ?d1, ?d0]"
    using right_aligned_suffix [of W "[decimalPoint, ?d1, ?d0]" "text" "decimal (c div 100)"]
    by (simp add: ms)
  have pdot: "2 < W \<Longrightarrow> poke (right_aligned text W [?d1, ?d0]) (int W - 3) decimalPoint
               = Some (right_aligned text W [decimalPoint, ?d1, ?d0])"
    using assms by (intro poke_field) auto
  have pzero: "3 < W \<Longrightarrow> poke (right_aligned text W [decimalPoint, ?d1, ?d0]) (int W - 4) (CHR ''0'')
               = Some (right_aligned text W [CHR ''0'', decimalPoint, ?d1, ?d0])"
    using assms by (intro poke_field) auto
  have pz1: "1 < W \<Longrightarrow> poke (right_aligned text W [?d0]) (int W - 2) (CHR ''0'')
               = Some (right_aligned text W [CHR ''0'', ?d0])"
    using assms by (intro poke_field) auto
  have ints: "3 < W \<Longrightarrow> integerDigits (c div 100) (right_aligned text W [decimalPoint, ?d1, ?d0]) (int W - 3)
     = Some (right_aligned text W ?ms, int (W - 3 - min (W - 3) (length (decimal (c div 100)))))"
    using integerDigits_chain [of "[decimalPoint, ?d1, ?d0]" "W - 3" W "text" "c div 100"] assms
    by (simp add: ms of_nat_diff)
  have step: "timeMetricToText metric text (int W) =
     (case (if W = 1 then Some (Inl (right_aligned text W [?d0]))
            else if c div 10 \<noteq> 0 then
              (if W = 2 then Some (Inl (right_aligned text W [?d1, ?d0]))
               else Some (Inr (c div 100, right_aligned text W [?d1, ?d0], int W - 2, 2::nat)))
            else Some (Inr (0, right_aligned text W [?d0], int W - 1, 1))) of
        None \<Rightarrow> None
      | Some (Inl text') \<Rightarrow> Some (text', 0)
      | Some (Inr (metric', text', width', i)) \<Rightarrow>
          if metric' \<noteq> 0 then do {
            text'' \<leftarrow> poke text' (width' - 1) decimalPoint;
            if width' - 1 > 0 then integerDigits metric' text'' (width' - 1)
            else Some (text'', width' - 1)
          } else if i = 1 then do {
            text1 \<leftarrow> poke text' (width' - 1) (CHR ''0'');
            if width' - 1 = 0 then Some (text1, 0)
            else do {
              text2 \<leftarrow> poke text1 (width' - 2) decimalPoint;
              if width' - 2 > 0 then do {
                text3 \<leftarrow> poke text2 (width' - 3) (CHR ''0'');
                Some (text3, width' - 3)
              } else Some (text2, width' - 2)
            }
          } else do {
            text2 \<leftarrow> poke text' (width' - 1) decimalPoint;
            if width' - 1 > 0 then do {
              text3 \<leftarrow> poke text2 (width' - 2) (CHR ''0'');
              Some (text3, width' - 2)
            } else Some (text2, width' - 1)
          })"
    by (simp only: timeMetricToText_def c_def [symmetric] decimalDigits_field [OF assms])
  show "timeMetricToText metric text (int W) =
     Some (right_aligned text W ?ms, int (W - min W (length ?ms)))"
  proof (cases "c div 10 = 0")
    case True
    then have small: "c div 100 = 0" "c div 10 mod 10 = 0" "c < 10"
      by (auto simp: div_eq_0_iff)
    have d1: "?d1 = CHR ''0''" by (simp add: small digit_char_numerals)
    have dec0: "decimal (c div 100) = [CHR ''0'']"
      by (simp add: small decimal_small digit_char_numerals)
    have len3: "length ?ms = 4" by (simp add: len dec0)
    consider "W = 1" | "W = 2" | "W = 3" | "3 < W" using assms(1) by linarith
    then show ?thesis
    proof cases
      case 1
      then show ?thesis
        using assms sfx1 True
        unfolding step by (simp add: len3)
    next
      case 2
      then show ?thesis
        using assms sfx2 True pz1 d1
        unfolding step by (simp add: len3)
    next
      case 3
      then show ?thesis
        using assms sfx3 True pz1 d1 pdot
        unfolding step by (simp add: len3)
    next
      case 4
      then show ?thesis
        using assms True pz1 d1 pdot pzero
        unfolding step by (simp add: len3 ms decimal_0)
    qed
  next
    case False
    consider "W = 1" | "W = 2" | "W = 3" | "3 < W" using assms(1) by linarith
    then show ?thesis
    proof cases
      case 1
      then show ?thesis
        using assms sfx1 False unfolding step by (simp add: len)
    next
      case 2
      then show ?thesis
        using assms sfx2 False unfolding step by (simp add: len)
    next
      case 3
      show ?thesis
      proof (cases "c div 100 = 0")
        case True
        then have m10: "c div 10 mod 10 = c div 10"
          by (simp add: div_eq_0_iff)
        show ?thesis
          using 3 True assms sfx3 False pdot unfolding step m10 by (simp add: len)
      next
        case nz: False
        show ?thesis
          using 3 nz assms sfx3 False pdot unfolding step by (simp add: len)
      qed
    next
      case 4
      show ?thesis
      proof (cases "c div 100 = 0")
        case True
        then have m10: "c div 10 mod 10 = c div 10"
          by (simp add: div_eq_0_iff)
        show ?thesis
          using 4 True assms False pdot pzero unfolding step ms m10 by (simp add: decimal_0)
      next
        case nz: False
        have "W - 3 - min (W - 3) (length (decimal (c div 100))) = W - min W (length ?ms)"
          unfolding len using 4 by (rule min_shift3)
        then show ?thesis
          using 4 assms False nz pdot ints unfolding step by simp
      qed
    qed
  qed
qed

lemma decimal_not_blank: "c \<in> set (decimal n) \<Longrightarrow> c \<noteq> CHR '' ''"
proof (induction n rule: decimal.induct)
  case (1 n)
  show ?case
  proof (cases "n < 10")
    case True
    then show ?thesis
      using "1.prems" digit_char_not_blank [of n] by (auto simp: decimal_small)
  next
    case False
    then have "decimal n = decimal (n div 10) @ [digit_char (n mod 10)]"
      by (simp add: decimal_step)
    then show ?thesis
      using "1.IH" [OF False] "1.prems" digit_char_not_blank [of "n mod 10"] by auto
  qed
qed

lemma foldl_decimal: "foldl (\<lambda>acc c. 10 * acc + digit_value c) 0 (decimal n) = n"
proof (induction n rule: decimal.induct)
  case (1 n)
  show ?case
  proof (cases "n < 10")
    case True
    then show ?thesis by (simp add: decimal_small digit_value_digit_char)
  next
    case False
    then have "decimal n = decimal (n div 10) @ [digit_char (n mod 10)]"
      by (simp add: decimal_step)
    then show ?thesis
      using "1.IH" [OF False] by (simp add: digit_value_digit_char)
  qed
qed

lemma parse_decimal_padded:
  "parse_decimal (replicate k (CHR '' '') @ decimal n) = n"
proof -
  have "dropWhile (\<lambda>c. c = CHR '' '') (replicate k (CHR '' '') @ decimal n)
          = dropWhile (\<lambda>c. c = CHR '' '') (decimal n)"
    by (rule dropWhile_append2) simp
  also have "\<dots> = decimal n"
    using decimal_not_blank [of _ n] length_decimal_pos [of n]
    by (cases "decimal n") auto
  finally show ?thesis by (simp add: parse_decimal_def foldl_decimal)
qed

lemma take_right_aligned:
  "w \<le> length text \<Longrightarrow>
   take w (right_aligned text w s) = take (w - length s) text @ drop (length s - w) s"
proof (cases "w \<le> length s")
  case True
  then show ?thesis by (simp add: right_aligned_def min_def)
next
  case False
  assume w: "w \<le> length text"
  have "length (take (w - length s) text @ s) = w"
    using False w by simp
  then have "take w ((take (w - length s) text @ s) @ drop w text) = take (w - length s) text @ s"
    by (metis append_eq_conv_conj)
  then show ?thesis using False by (simp add: right_aligned_def min_def)
qed

lemma take_right_aligned_blank:
  assumes "w \<le> length text" "\<forall>c \<in> set (take w text). c = CHR '' ''"
  shows "take w (right_aligned text w s) = pad_left w s"
proof -
  have "take (w - length s) text = take (w - length s) (take w text)" by simp
  also have "take w text = replicate w (CHR '' '')"
    using assms by (simp add: replicate_eqI)
  finally show ?thesis
    using assms(1) by (simp add: take_right_aligned pad_left_def)
qed


lemma digit_char_Suc0: "digit_char (Suc 0) = CHR ''1''"
  using digit_char_numerals(2) by simp

lemmas format_eval = timeMetricToText_def decimalDigits.simps integerDigits.simps
  integerMetricToText.simps poke_def decimalCount_def decimalPoint_def digit_char_numerals
  digit_char_Suc0


lemma windowSize_text:
  assumes w: "0 < w" "w \<le> length text"
  shows "windowMetricText WindowSize windowId frameSize text (int w) =
     Some (right_aligned text w
       (decimal (quint64_of_int (size_width frameSize)) @ ''x'' @
        decimal (quint64_of_int (size_height frameSize))))"
proof -
  let ?H = "decimal (quint64_of_int (size_height frameSize))"
  let ?W = "decimal (quint64_of_int (size_width frameSize))"
  define r where "r = w - min w (length ?H)"
  have h: "integerMetricToText (quint64_of_int (size_height frameSize)) text (int w) =
      Some (right_aligned text w ?H, int r)"
    using integerMetricToText_chain [of "[]" w w "text"] w by (simp add: right_aligned_Nil r_def)
  have unfold: "windowMetricText WindowSize windowId frameSize text (int w) =
     (if int r \<ge> 2 then do {
          text2 \<leftarrow> poke (right_aligned text w ?H) (int r - 1) (CHR ''x'');
          (text3, _) \<leftarrow>
            integerMetricToText (quint64_of_int (size_width frameSize)) text2 (int r - 1);
          Some text3
        } else if int r = 1 then poke (right_aligned text w ?H) (int r - 1) (CHR ''x'')
        else Some (right_aligned text w ?H))"
    by (simp add: windowMetricText_def WindowSize_def WindowId_def h)
  consider "r = 0" | "r = 1" | "2 \<le> r" by linarith
  then show ?thesis
  proof cases
    case 1
    then have "w \<le> length ?H" by (simp add: r_def min_def split: if_splits)
    then have "right_aligned text w (?W @ ''x'' @ ?H) = right_aligned text w ?H"
      using right_aligned_suffix [of w ?H "text" "?W @ ''x''"] by simp
    then show ?thesis unfolding unfold using 1 by simp
  next
    case 2
    then have l: "length ?H < w" "w - length ?H = 1" "int r = int w - int (length ?H)"
      by (auto simp: r_def min_def split: if_splits)
    have pk: "poke (right_aligned text w ?H) (int r - 1) (CHR ''x'')
                = Some (right_aligned text w (CHR ''x'' # ?H))"
      using l w by (intro poke_field) auto
    have "right_aligned text w (?W @ ''x'' @ ?H) = right_aligned text w (CHR ''x'' # ?H)"
      using right_aligned_suffix [of w "CHR ''x'' # ?H" "text" ?W] l by simp
    then show ?thesis unfolding unfold using 2 pk by simp
  next
    case 3
    then have l: "length ?H < w" "r = w - length ?H" "0 < r - 1"
      "int r = int w - int (length ?H)"
      by (auto simp: r_def min_def split: if_splits)
    have pk: "poke (right_aligned text w ?H) (int r - 1) (CHR ''x'')
                = Some (right_aligned text w (CHR ''x'' # ?H))"
      using l w by (intro poke_field) auto
    have i: "int r - 1 = int (r - 1)" using 3 by simp
    have ge: "int r \<ge> 2" using 3 by simp
    have run: "integerMetricToText (quint64_of_int (size_width frameSize))
            (right_aligned text w (CHR ''x'' # ?H)) (int (r - 1))
          = Some (right_aligned text w (?W @ CHR ''x'' # ?H),
                  int (r - 1 - min (r - 1) (length ?W)))"
      using l w by (intro integerMetricToText_chain) auto
    have "windowMetricText WindowSize windowId frameSize text (int w) =
            Some (right_aligned text w (?W @ CHR ''x'' # ?H))"
      unfolding unfold by (simp only: ge if_True pk [unfolded i] bind.bind_lunit i run case_prod_conv)
    then show ?thesis by simp
  qed
qed


section \<open>Claims about the formatters\<close>

text \<open>
  Claim C5.  \<open>integerMetricToText\<close> writes the decimal digits of the value flush right
  into the field \<open>text[0..width)\<close> and returns the width left over; nothing outside the
  field changes.  When the digits do not fit, the most significant ones are missing and the
  result is 0.  When they fit and the field was blank, reading the field back as a decimal
  number gives the value again.
\<close>

theorem integerMetricToText_right_aligned:
  assumes "0 < width" and "width \<le> int (length text)"
  shows "integerMetricToText v text width =
           Some (right_aligned text (nat width) (decimal v),
                 width - int (min (nat width) (length (decimal v))))
       \<and> (nat width \<le> length (decimal v) \<longrightarrow>
             map_option snd (integerMetricToText v text width) = Some 0)
       \<and> (length (decimal v) \<le> nat width \<and> (\<forall>c \<in> set (take (nat width) text). c = CHR '' '')
            \<longrightarrow> parse_decimal (take (nat width) (right_aligned text (nat width) (decimal v))) = v)"
proof -
  have w: "0 < nat width" "nat width \<le> length text" "int (nat width) = width"
    using assms by auto
  have run: "integerMetricToText v text width =
           Some (right_aligned text (nat width) (decimal v),
                 width - int (min (nat width) (length (decimal v))))"
    using integerMetricToText_chain [of "[]" "nat width" "nat width" "text" v] w
    by (simp add: right_aligned_Nil)
  have rt: "length (decimal v) \<le> nat width \<Longrightarrow>
              \<forall>c \<in> set (take (nat width) text). c = CHR '' '' \<Longrightarrow>
     parse_decimal (take (nat width) (right_aligned text (nat width) (decimal v))) = v"
    using take_right_aligned_blank [OF w(2), of "decimal v"]
    by (simp add: pad_left_def parse_decimal_padded)
  show ?thesis using run rt w(3) by (auto simp: min_def)
qed

theorem integerMetricToText_right_aligned_witness:
  "0 < (5::int) \<and> (5::int) \<le> int (length ''     '')
   \<and> integerMetricToText 42 ''     '' 5 = Some (''   42'', 3)
   \<and> parse_decimal ''   42'' = 42"
proof -
  have h1: "0 < (5::int)" and h2: "(5::int) \<le> int (length ''     '')" by simp_all
  have d: "decimal 42 = ''42''" by code_simp
  have r: "right_aligned ''     '' 5 ''42'' = ''   42''" by code_simp
  have p: "parse_decimal ''   42'' = 42" by code_simp
  show ?thesis
    using integerMetricToText_right_aligned [OF h1 h2, of 42] p by (simp add: d r)
qed

text \<open>
  Claim C3, as amended.  \<open>timeMetricToText\<close> renders a nanosecond value as milliseconds
  with exactly two decimals, flush right in the field \<open>text[0..width)\<close>; nothing outside the
  field changes, and a field that is too narrow holds the last \<open>width\<close> characters of
  the rendering.  15 000 000 ns in a field of five is \<open>15.00\<close>.
\<close>

theorem timeMetricToText_milliseconds:
  assumes "0 < width" and "width \<le> int (length text)"
  shows "timeMetricToText metric text width =
           Some (right_aligned text (nat width) (milliseconds_text (metric div 10000)),
                 width - int (min (nat width) (length (milliseconds_text (metric div 10000)))))"
proof -
  have w: "0 < nat width" "nat width \<le> length text" "int (nat width) = width"
    using assms by auto
  show ?thesis
    using timeMetricToText_field [OF w(1,2), of metric]
    by (simp only: w(3) of_nat_diff min.cobounded1 of_nat_min)
qed

theorem timeMetricToText_milliseconds_witness:
  "0 < (5::int) \<and> (5::int) \<le> int (length ''     '')
   \<and> timeMetricToText 15000000 ''     '' 5 = Some (''15.00'', 0)
   \<and> right_aligned ''     '' (nat 5) (milliseconds_text (15000000 div 10000)) = ''15.00''"
proof -
  have h1: "0 < (5::int)" and h2: "(5::int) \<le> int (length ''     '')" by simp_all
  have m: "milliseconds_text (15000000 div 10000) = ''15.00''"
    by (simp add: milliseconds_text_def decimal.simps format_eval)
  have r: "right_aligned ''     '' (nat 5) ''15.00'' = ''15.00''"
    by (simp add: right_aligned_def)
  have "timeMetricToText 15000000 ''     '' 5 = Some (''15.00'', 0)"
    using timeMetricToText_milliseconds [OF h1 h2, of 15000000] unfolding m r by simp
  then show ?thesis using h1 h2 m r by simp
qed


text \<open>The value 15 000 000 ns is 15 ms: the field of five holds \<open>15.00\<close>, not \<open>1.50\<close>.\<close>

theorem timeMetricToText_15ms_counterexample:
  "timeMetricToText 15000000 ''     '' 5 = Some (''15.00'', 0)
   \<and> map_option fst (timeMetricToText 15000000 ''     '' 5) \<noteq> Some '' 1.50''"
  by (simp add: format_eval)

text \<open>
  Claim C8, as amended.  A windowSize slot shows \<open>width x height\<close>: the height is
  formatted first, at the right end of the slot, then the separator and the width to its
  left.  A slot that is too narrow shows the last characters of that text, so the width
  digits go first (most significant first), then the separator, then height digits; no
  character outside the slot is passed on.
\<close>

theorem updateWindowMetrics_windowSize:
  assumes "slot_index m = WindowSize"
    and "0 < slot_width m" and "slot_width m \<le> maxMetricWidth"
    and "maxMetricWidth \<le> length text"
  shows "updateWindowMetrics windowId frameSize [m] text =
     Some [(slot_textIndex m,
            pad_left (slot_width m)
              (decimal (quint64_of_int (size_width frameSize)) @ ''x'' @
               decimal (quint64_of_int (size_height frameSize))))]"
proof -
  let ?T0 = "replicate maxMetricWidth (CHR '' '') @ drop maxMetricWidth text"
  let ?s = "decimal (quint64_of_int (size_width frameSize)) @ ''x'' @
               decimal (quint64_of_int (size_height frameSize))"
  have ms: "memset_blank text = Some ?T0" using assms(4) by (simp add: memset_blank_def)
  have len: "slot_width m \<le> length ?T0" using assms by simp
  have blank: "\<forall>c \<in> set (take (slot_width m) ?T0). c = CHR '' ''"
    using assms(3) by (auto dest: in_set_takeD)
  have "windowMetricText (slot_index m) windowId frameSize ?T0 (int (slot_width m)) =
     Some (right_aligned ?T0 (slot_width m) ?s)"
    unfolding assms(1) using assms(2) len by (rule windowSize_text)
  moreover have "take (slot_width m) (right_aligned ?T0 (slot_width m) ?s) = pad_left (slot_width m) ?s"
    using len blank by (rule take_right_aligned_blank)
  ultimately show ?thesis by (simp add: ms)
qed

theorem updateWindowMetrics_windowSize_witness:
  "slot_index \<lparr>slot_index = WindowSize, slot_textIndex = 0, slot_width = 4\<rparr> = WindowSize
   \<and> 0 < slot_width \<lparr>slot_index = WindowSize, slot_textIndex = 0, slot_width = 4\<rparr>
   \<and> slot_width \<lparr>slot_index = WindowSize, slot_textIndex = 0, slot_width = 4\<rparr> \<le> maxMetricWidth
   \<and> maxMetricWidth \<le> length (replicate bufferSize (CHR ''?''))
   \<and> updateWindowMetrics 1 \<lparr>size_width = 1920, size_height = 1080\<rparr>
         [\<lparr>slot_index = WindowSize, slot_textIndex = 0, slot_width = 4\<rparr>]
         (replicate bufferSize (CHR ''?'')) = Some [(0, ''1080'')]"
proof -
  let ?m = "\<lparr>slot_index = WindowSize, slot_textIndex = 0, slot_width = 4\<rparr>"
  have h1: "slot_index ?m = WindowSize" by simp
  have h2: "0 < slot_width ?m" by simp
  have h3: "slot_width ?m \<le> maxMetricWidth" by (simp add: maxMetricWidth_def)
  have h4: "maxMetricWidth \<le> length (replicate bufferSize (CHR ''?''))"
    by (simp add: maxMetricWidth_def bufferSize_def)
  have e: "pad_left 4 (decimal (quint64_of_int 1920) @ ''x'' @ decimal (quint64_of_int 1080)) = ''1080''"
    by code_simp
  show ?thesis
    using updateWindowMetrics_windowSize [OF h1 h2 h3 h4, of 1 "\<lparr>size_width = 1920, size_height = 1080\<rparr>"]
      h3 h4 e by simp
qed


text \<open>
  A slot of nine shows 1920 by 1080 as \<open>1920x1080\<close>, width first; a slot of seven keeps
  two digits of the width.
\<close>

theorem updateWindowMetrics_windowSize_counterexample:
  "updateWindowMetrics 1 \<lparr>size_width = 1920, size_height = 1080\<rparr>
     [\<lparr>slot_index = WindowSize, slot_textIndex = 0, slot_width = 9\<rparr>]
     (replicate bufferSize (CHR ''?'')) = Some [(0, ''1920x1080'')]
   \<and> updateWindowMetrics 1 \<lparr>size_width = 1920, size_height = 1080\<rparr>
     [\<lparr>slot_index = WindowSize, slot_textIndex = 0, slot_width = 9\<rparr>]
     (replicate bufferSize (CHR ''?'')) \<noteq> Some [(0, ''1080x1920'')]
   \<and> updateWindowMetrics 1 \<lparr>size_width = 1920, size_height = 1080\<rparr>
     [\<lparr>slot_index = WindowSize, slot_textIndex = 0, slot_width = 7\<rparr>]
     (replicate bufferSize (CHR ''?'')) = Some [(0, ''20x1080'')]"
  by code_simp

section \<open>Properties of the window monitor\<close>

lemma deliver_count_step:
  "gpuResourcesInitialized m = i \<Longrightarrow> frame_number m = of_nat n \<Longrightarrow>
   gpuResourcesInitialized (deliver noGpuTimer cb m) = fst (count_step (i, n) cb)
   \<and> frame_number (deliver noGpuTimer cb m) = of_nat (snd (count_step (i, n) cb))"
  by (cases cb)
     (auto simp: windowSceneGraphInitialized_def windowSceneGraphInvalidated_def
        windowBeforeSynchronizing_def windowAfterSynchronizing_def windowBeforeRendering_def
        windowAfterRendering_def windowFrameSwapped_def initializeGpuResources_def
        finalizeGpuResources_def Let_def)

lemma deliver_all_count:
  "gpuResourcesInitialized m = fst c \<Longrightarrow> frame_number m = of_nat (snd c) \<Longrightarrow>
   gpuResourcesInitialized (foldl (\<lambda>m cb. deliver noGpuTimer cb m) m cbs) = fst (foldl count_step c cbs)
   \<and> frame_number (foldl (\<lambda>m cb. deliver noGpuTimer cb m) m cbs) = of_nat (snd (foldl count_step c cbs))"
proof (induction cbs arbitrary: m c)
  case Nil
  then show ?case by simp
next
  case (Cons cb cbs)
  obtain i n where c: "c = (i, n)" by (cases c)
  have "gpuResourcesInitialized (deliver noGpuTimer cb m) = fst (count_step c cb)
        \<and> frame_number (deliver noGpuTimer cb m) = of_nat (snd (count_step c cb))"
    using deliver_count_step [of m i n noGpuTimer cb] Cons.prems by (simp add: c)
  then show ?case
    using Cons.IH [of "deliver noGpuTimer cb m" "count_step c cb"] by simp
qed

section \<open>Properties of the logging thread\<close>

lemma ring_distinct:
  assumes "k < n" "n < logQueueSize"
  shows "(i + k) mod logQueueSize \<noteq> (i + n) mod logQueueSize"
proof
  assume eq: "(i + k) mod logQueueSize = (i + n) mod logQueueSize"
  have "(i + n) mod logQueueSize = (i + k) mod logQueueSize
          \<longleftrightarrow> logQueueSize dvd (i + n) - (i + k)"
    using assms by (intro mod_eq_dvd_iff_nat) simp
  then have "logQueueSize dvd n - k" using eq by simp
  then show False using assms by (auto dest: dvd_imp_le)
qed

lemma queued_push:
  assumes "ring_ok s" "push e s = Some s'"
  shows "queued s' = queued s @ [e]" "ring_ok s'"
proof -
  have sz: "m_queueSize s < logQueueSize"
    using assms by (auto simp: push_def ring_ok_def split: if_splits)
  let ?q = "(m_queue s)[(m_queueIndex s + m_queueSize s) mod logQueueSize := e]"
  have s': "m_queue s' = ?q" "m_queueIndex s' = m_queueIndex s" "m_queueSize s' = Suc (m_queueSize s)"
    using assms sz by (auto simp: push_def wakeIfWaiting_def split: if_splits)
  have pos: "(m_queueIndex s + m_queueSize s) mod logQueueSize < length (m_queue s)"
    using assms(1) by (simp add: ring_ok_def logQueueSize_def)
  have old: "?q ! ((m_queueIndex s + k) mod logQueueSize) = m_queue s ! ((m_queueIndex s + k) mod logQueueSize)"
    if "k < m_queueSize s" for k
    using ring_distinct [OF that sz, of "m_queueIndex s"] by simp
  have "map (\<lambda>k. ?q ! ((m_queueIndex s + k) mod logQueueSize)) [0..<m_queueSize s] = queued s"
    unfolding queued_def by (rule map_cong) (auto simp: old)
  then show "queued s' = queued s @ [e]"
    using pos by (simp add: queued_def s')
  show "ring_ok s'" using assms(1) sz by (simp add: ring_ok_def s')
qed

lemma queued_unqueue:
  assumes "ring_ok s" "0 < m_queueSize s"
  shows "queued s = (m_queue s ! m_queueIndex s) # queued (unqueue s)" "ring_ok (unqueue s)"
    "consumer (unqueue s) = Logging (m_queue s ! m_queueIndex s) (m_loggers s)"
proof -
  obtain n where n: "m_queueSize s = Suc n" using assms(2) by (cases "m_queueSize s") auto
  have idx: "m_queueIndex s mod logQueueSize = m_queueIndex s"
    using assms(1) by (simp add: ring_ok_def)
  have "queued s = (m_queue s ! m_queueIndex s)
          # map (\<lambda>k. m_queue s ! ((m_queueIndex s + Suc k) mod logQueueSize)) [0..<n]"
    by (simp add: queued_def n upt_conv_Cons idx map_Suc_upt [symmetric] del: upt_Suc)
  moreover have "((m_queueIndex s + 1) mod logQueueSize + k) mod logQueueSize
                  = (m_queueIndex s + Suc k) mod logQueueSize" for k
    by (simp add: mod_add_left_eq)
  ultimately show "queued s = (m_queue s ! m_queueIndex s) # queued (unqueue s)"
    by (simp add: unqueue_def n queued_def)
  show "ring_ok (unqueue s)"
    using assms by (auto simp: unqueue_def ring_ok_def logQueueSize_def)
  show "consumer (unqueue s) = Logging (m_queue s ! m_queueIndex s) (m_loggers s)"
    using assms by (simp add: unqueue_def)
qed

lemma fan_out_snoc:
  "length snaps = length D \<Longrightarrow>
   fan_out (zip (D @ [e]) (snaps @ [ls])) = fan_out (zip D snaps) @ map (\<lambda>l. (l, e)) ls"
  by (simp add: fan_out_def)

lemma delivered_in_order_cong:
  "delivered_in_order L P s \<Longrightarrow> in_flight s' = in_flight s \<Longrightarrow> logged s' = logged s \<Longrightarrow>
   L \<subseteq> L' \<Longrightarrow> delivered_in_order L' P s'"
  unfolding delivered_in_order_def by (metis subset_trans)

lemma delivered_in_order_push:
  "delivered_in_order L P s \<Longrightarrow> in_flight s' = in_flight s @ [e] \<Longrightarrow> logged s' = logged s \<Longrightarrow>
   delivered_in_order L (P @ [e]) s'"
  unfolding delivered_in_order_def by (metis append.assoc)

lemma delivered_in_order_log:
  assumes "delivered_in_order L P s" "in_flight s = e # in_flight s'"
    "logged s' = logged s @ map (\<lambda>l. (l, e)) ls" "ls \<in> L"
  shows "delivered_in_order L P s'"
proof -
  obtain D snaps where D: "P = D @ in_flight s" "length snaps = length D" "set snaps \<subseteq> L"
    "logged s = fan_out (zip D snaps)"
    using assms(1) by (auto simp: delivered_in_order_def)
  have "P = (D @ [e]) @ in_flight s' \<and> length (snaps @ [ls]) = length (D @ [e])
        \<and> set (snaps @ [ls]) \<subseteq> L \<and> logged s' = fan_out (zip (D @ [e]) (snaps @ [ls]))"
    using D assms(2,3,4) by (simp add: fan_out_def)
  then show ?thesis unfolding delivered_in_order_def by blast
qed

lemma consumer_ok_mono: "consumer_ok L s \<Longrightarrow> L \<subseteq> L' \<Longrightarrow> consumer_ok L' s"
  unfolding consumer_ok_def by blast

lemma thread_inv_mono: "thread_inv L P s \<Longrightarrow> L \<subseteq> L' \<Longrightarrow> thread_inv L' P s"
  unfolding thread_inv_def
  using consumer_ok_mono delivered_in_order_cong by blast

lemma thread_inv_push:
  assumes "thread_inv L P s" "push e s = Some s'"
  shows "thread_inv L (P @ [e]) s'"
proof -
  have q: "queued s' = queued s @ [e]" "ring_ok s'"
    using queued_push [OF _ assms(2)] assms(1) by (auto simp: thread_inv_def consumer_ok_def)
  have same: "consumer s' = consumer s" "m_loggers s' = m_loggers s" "logged s' = logged s"
    "joinRequested s' = joinRequested s" "waiting s' = waiting s" "0 < m_queueSize s'"
    using assms(2) by (auto simp: push_def wakeIfWaiting_def split: if_splits)
  have fl: "in_flight s' = in_flight s @ [e]" by (simp add: in_flight_def same q)
  have "consumer_ok L s'"
    using assms(1) q(2) same(6) unfolding thread_inv_def consumer_ok_def same by blast
  moreover have "delivered_in_order L (P @ [e]) s'"
    using assms(1) fl same(3) unfolding thread_inv_def by (blast intro: delivered_in_order_push)
  ultimately show ?thesis by (simp add: thread_inv_def)
qed

lemma thread_inv_join:
  assumes "thread_inv L P s"
  shows "thread_inv L P (requestJoin s)"
proof -
  let ?t = "requestJoin s"
  have same: "consumer ?t = consumer s" "m_loggers ?t = m_loggers s" "logged ?t = logged s"
    "joinRequested ?t" "waiting ?t = waiting s" "m_queueSize ?t = m_queueSize s"
    "m_queue ?t = m_queue s" "m_queueIndex ?t = m_queueIndex s"
    by (auto simp: requestJoin_def wakeIfWaiting_def)
  have fl: "in_flight ?t = in_flight s" by (simp add: in_flight_def queued_def same)
  have "consumer_ok L ?t"
    using assms same by (auto simp: thread_inv_def consumer_ok_def ring_ok_def)
  moreover have "delivered_in_order L P ?t"
    using assms fl same(3) unfolding thread_inv_def by (blast intro: delivered_in_order_cong)
  ultimately show ?thesis by (simp add: thread_inv_def)
qed

lemma thread_inv_setLoggers:
  assumes "thread_inv L P s" "setLoggers ls s = Some s'"
  shows "thread_inv (insert ls L) P s'"
proof -
  have s': "s' = s\<lparr>m_loggers := ls\<rparr>" using assms(2) by (auto simp: setLoggers_def split: if_splits)
  have fl: "in_flight s' = in_flight s" "logged s' = logged s"
    by (simp_all add: in_flight_def queued_def s')
  have "consumer_ok (insert ls L) s'"
    using assms(1) unfolding thread_inv_def consumer_ok_def ring_ok_def s' by simp
  moreover have "delivered_in_order (insert ls L) P s'"
    using assms(1) fl unfolding thread_inv_def by (blast intro: delivered_in_order_cong)
  ultimately show ?thesis by (simp add: thread_inv_def)
qed

lemma thread_inv_unqueue:
  assumes inv: "thread_inv L P s" and c: "consumer s = AtLoopTop \<or> consumer s = InWait"
    and sz: "0 < m_queueSize s"
  shows "thread_inv L P (unqueue (s\<lparr>woken := w, waiting := v\<rparr>))"
proof -
  let ?t = "s\<lparr>woken := w, waiting := v\<rparr>"
  have r: "ring_ok ?t" "0 < m_queueSize ?t"
    using inv sz by (auto simp: thread_inv_def consumer_ok_def ring_ok_def)
  note u = queued_unqueue [OF r]
  have "queued s = queued ?t" by (simp add: queued_def)
  then have fl: "in_flight (unqueue ?t) = in_flight s"
    using u(1,3) c by (auto simp: in_flight_def)
  have other: "logged (unqueue ?t) = logged s" "m_loggers (unqueue ?t) = m_loggers s"
    using sz by (auto simp: unqueue_def)
  have "m_loggers s \<in> L" using inv by (simp add: thread_inv_def consumer_ok_def)
  then have "consumer_ok L (unqueue ?t)"
    unfolding consumer_ok_def other using u(2,3) by simp
  moreover have "delivered_in_order L P (unqueue ?t)"
    using inv fl other(1) unfolding thread_inv_def by (blast intro: delivered_in_order_cong)
  ultimately show ?thesis by (simp add: thread_inv_def)
qed

lemma thread_inv_run:
  assumes inv: "thread_inv L P s" and st: "run_step s = Some s'"
  shows "thread_inv L P s'"
proof (cases "consumer s")
  case AtLoopTop
  show ?thesis
  proof (cases "m_queueSize s = 0")
    case True
    then have s': "s' = (if joinRequested s then s\<lparr>consumer := Exited\<rparr>
                    else s\<lparr>waiting := True, woken := False, consumer := InWait\<rparr>)"
      using st AtLoopTop by (auto simp: run_step_def split: if_splits)
    have fl: "in_flight s' = in_flight s" "logged s' = logged s"
      using AtLoopTop by (simp_all add: s' in_flight_def queued_def)
    have "consumer_ok L s'"
      using inv unfolding thread_inv_def consumer_ok_def ring_ok_def s' by simp
    moreover have "delivered_in_order L P s'"
      using inv fl unfolding thread_inv_def by (blast intro: delivered_in_order_cong)
    ultimately show ?thesis by (simp add: thread_inv_def)
  next
    case False
    then have "s' = unqueue s" using st AtLoopTop by (simp add: run_step_def)
    then show ?thesis
      using thread_inv_unqueue [OF inv, of "waiting s" "woken s"] AtLoopTop False by simp
  qed
next
  case InWait
  then have w: "woken s" using st by (auto simp: run_step_def split: if_splits)
  show ?thesis
  proof (cases "m_queueSize s = 0 \<and> joinRequested s")
    case True
    then have s': "s' = s\<lparr>woken := False, consumer := Exited\<rparr>"
      using st InWait w by (simp add: run_step_def)
    have fl: "in_flight s' = in_flight s" "logged s' = logged s"
      using InWait by (simp_all add: s' in_flight_def queued_def)
    have "consumer_ok L s'"
      using inv True unfolding thread_inv_def consumer_ok_def ring_ok_def s' by simp
    moreover have "delivered_in_order L P s'"
      using inv fl unfolding thread_inv_def by (blast intro: delivered_in_order_cong)
    ultimately show ?thesis by (simp add: thread_inv_def)
  next
    case False
    then have sz: "0 < m_queueSize s"
      using inv InWait w by (auto simp: thread_inv_def consumer_ok_def)
    have "s' = unqueue (s\<lparr>woken := False, waiting := False\<rparr>)"
      using st InWait w False by (auto simp: run_step_def)
    then show ?thesis using thread_inv_unqueue [OF inv _ sz] InWait by simp
  qed
next
  case (Logging e ls)
  then have s': "s' = s\<lparr>logged := logged s @ map (\<lambda>l. (l, e)) ls, consumer := AtLoopTop\<rparr>"
    using st by (simp add: run_step_def)
  have ls: "ls \<in> L" using inv Logging by (auto simp: thread_inv_def consumer_ok_def)
  have fl: "in_flight s = e # in_flight s'"
    by (simp add: in_flight_def Logging s' queued_def)
  have lg: "logged s' = logged s @ map (\<lambda>l. (l, e)) ls" by (simp add: s')
  have "consumer_ok L s'"
    using inv unfolding thread_inv_def consumer_ok_def ring_ok_def s' by simp
  moreover have "delivered_in_order L P s'"
    using inv fl lg ls unfolding thread_inv_def by (blast intro: delivered_in_order_log)
  ultimately show ?thesis by (simp add: thread_inv_def)
next
  case Exited
  then show ?thesis using st by (simp add: run_step_def)
next
  case Underflow
  then show ?thesis using st by (simp add: run_step_def)
qed

lemma pushes_Cons: "pushes (a # as) = action_pushes a @ pushes as"
  by (cases a) auto

lemma installed_Cons:
  "installed (a # as) = (case a of SetLoggers ls \<Rightarrow> {ls} | _ \<Rightarrow> {}) \<union> installed as"
  by (cases a) (auto simp: installed_def)

lemma thread_inv_step:
  assumes "thread_inv L P s" "step a s = Some s'"
  shows "thread_inv (L \<union> installed [a]) (P @ pushes [a]) s'"
proof (cases a)
  case (Push e)
  then show ?thesis using assms thread_inv_push by (auto simp: installed_def)
next
  case Run
  then show ?thesis using assms thread_inv_run by (auto simp: installed_def)
next
  case Join
  then show ?thesis using assms thread_inv_join by (auto simp: installed_def)
next
  case (SetLoggers ls)
  then have "installed [a] = {ls}" by (auto simp: installed_def)
  then show ?thesis using assms thread_inv_setLoggers SetLoggers by auto
qed

lemma thread_inv_exec:
  "thread_inv L P s \<Longrightarrow> exec as s = Some s' \<Longrightarrow>
   thread_inv (L \<union> installed as) (P @ pushes as) s'"
proof (induction as arbitrary: L P s)
  case Nil
  then show ?case by (simp add: installed_def)
next
  case (Cons a as)
  then obtain s1 where s1: "step a s = Some s1" "exec as s1 = Some s'"
    by (auto split: option.splits)
  have "thread_inv (L \<union> installed [a]) (P @ pushes [a]) s1"
    using Cons.prems(1) s1(1) by (rule thread_inv_step)
  then have "thread_inv (L \<union> installed [a] \<union> installed as) ((P @ pushes [a]) @ pushes as) s'"
    using s1(2) by (rule Cons.IH)
  moreover have "L \<union> installed [a] \<union> installed as = L \<union> installed (a # as)"
    by (auto simp: installed_def)
  moreover have "(P @ pushes [a]) @ pushes as = P @ pushes (a # as)"
    by (cases a) auto
  ultimately show ?case by simp
qed

lemma thread_inv_started:
  "length q = logQueueSize \<Longrightarrow> thread_inv {ls} [] (started_thread q ls)"
  by (simp add: thread_inv_def consumer_ok_def delivered_in_order_def started_thread_def
        ring_ok_def in_flight_def queued_def fan_out_def logQueueSize_def)

lemma seen_by_fan_out:
  "map snd (filter (\<lambda>c. fst c = l) (fan_out xs))
     = concat (map (\<lambda>(e, snap). replicate (count_list snap l) e) xs)"
proof (induction xs)
  case Nil
  then show ?case by (simp add: fan_out_def)
next
  case (Cons x xs)
  obtain e snap where x: "x = (e, snap)" by (cases x)
  have one: "map snd (filter (\<lambda>c. fst c = l) (map (\<lambda>l'. (l', e)) snap))
               = replicate (count_list snap l) e"
    by (induction snap) auto
  have "fan_out (x # xs) = map (\<lambda>l'. (l', e)) snap @ fan_out xs"
    by (simp add: fan_out_def x)
  then show ?case using Cons.IH one by (simp add: x)
qed

lemma zip_same_list:
  assumes "length snaps = length D" "set snaps \<subseteq> {ls}"
  shows "zip D snaps = map (\<lambda>e. (e, ls)) D"
proof -
  have "snaps = replicate (length D) ls"
    using assms by (intro replicate_eqI) auto
  then show ?thesis by (simp add: zip_replicate2)
qed

lemma run_step_joinRequested:
  "run_step s = Some s' \<Longrightarrow> joinRequested s \<Longrightarrow> joinRequested s'"
  by (auto simp: run_step_def unqueue_def split: consumer.splits if_splits)

lemma drain:
  "thread_inv L P s \<Longrightarrow> joinRequested s \<Longrightarrow> (consumer s = InWait \<longrightarrow> woken s) \<Longrightarrow>
   consumer s \<noteq> Exited \<Longrightarrow> steps_to_exit s = n \<Longrightarrow>
   \<exists>s'. exec (replicate n Run) s = Some s' \<and> consumer s' = Exited \<and> m_queueSize s' = 0
        \<and> thread_inv L P s'"
proof (induction n arbitrary: s rule: less_induct)
  case (less n)
  have ok: "consumer_ok L s" using less.prems(1) by (simp add: thread_inv_def)
  have nU: "consumer s \<noteq> Underflow" using ok by (simp add: consumer_ok_def)
  have exits: ?case
    if st: "run_step s = Some s'" and ex: "consumer s' = Exited" "m_queueSize s' = 0" and n: "n = 1"
    for s'
  proof -
    have "thread_inv L P s'" using less.prems(1) st by (rule thread_inv_run)
    then show ?thesis using st ex n by simp
  qed
  have goes_on: ?case
    if st: "run_step s = Some s'" and c: "consumer s' \<noteq> Exited" "consumer s' \<noteq> InWait"
      and m: "Suc (steps_to_exit s') = n"
    for s'
  proof -
    have inv': "thread_inv L P s'" using less.prems(1) st by (rule thread_inv_run)
    have j: "joinRequested s'" using st less.prems(2) by (rule run_step_joinRequested)
    obtain s'' where "exec (replicate (steps_to_exit s') Run) s' = Some s''"
      "consumer s'' = Exited" "m_queueSize s'' = 0" "thread_inv L P s''"
      using less.IH [of "steps_to_exit s'" s'] inv' j c m by auto
    then show ?thesis using st m by auto
  qed
  show ?case
  proof (cases "consumer s")
    case AtLoopTop
    show ?thesis
    proof (cases "m_queueSize s = 0")
      case True
      show ?thesis
        by (rule exits [of "s\<lparr>consumer := Exited\<rparr>"])
           (use AtLoopTop True less.prems in \<open>auto simp: run_step_def steps_to_exit_def\<close>)
    next
      case False
      show ?thesis
        by (rule goes_on [of "unqueue s"])
           (use AtLoopTop False less.prems in \<open>auto simp: run_step_def steps_to_exit_def unqueue_def\<close>)
    qed
  next
    case InWait
    then have w: "woken s" using less.prems(3) by simp
    show ?thesis
    proof (cases "m_queueSize s = 0")
      case True
      show ?thesis
        by (rule exits [of "s\<lparr>woken := False, consumer := Exited\<rparr>"])
           (use InWait True w less.prems in \<open>auto simp: run_step_def steps_to_exit_def\<close>)
    next
      case False
      show ?thesis
        by (rule goes_on [of "unqueue (s\<lparr>woken := False, waiting := False\<rparr>)"])
           (use InWait False w less.prems in \<open>auto simp: run_step_def steps_to_exit_def unqueue_def\<close>)
    qed
  next
    case (Logging e ls)
    show ?thesis
      by (rule goes_on [of "s\<lparr>logged := logged s @ map (\<lambda>l. (l, e)) ls, consumer := AtLoopTop\<rparr>"])
         (use Logging less.prems in \<open>auto simp: run_step_def steps_to_exit_def\<close>)
  next
    case Exited
    then show ?thesis using less.prems by simp
  next
    case Underflow
    then show ?thesis using nU by simp
  qed
qed

lemma no_join_requested:
  "exec as s = Some s' \<Longrightarrow> Join \<notin> set as \<Longrightarrow> \<not> joinRequested s \<Longrightarrow> \<not> joinRequested s'"
proof (induction as arbitrary: s)
  case Nil
  then show ?case by simp
next
  case (Cons a as)
  then obtain s1 where s1: "step a s = Some s1" "exec as s1 = Some s'"
    by (auto split: option.splits)
  have "\<not> joinRequested s1"
    using s1(1) Cons.prems(2,3)
    by (cases a)
       (auto simp: push_def wakeIfWaiting_def setLoggers_def run_step_def unqueue_def
          split: if_splits consumer.splits)
  then show ?case using Cons.IH [OF s1(2)] Cons.prems(2) by simp
qed

lemma in_flight_step:
  assumes "ring_ok t" "step a t = Some t'"
  shows "consumer t' = Exited \<longrightarrow> consumer t = Exited \<or> in_flight t' = []"
    and "consumer t = Exited \<longrightarrow> consumer t' = Exited \<and> in_flight t' = in_flight t @ pushes [a]"
proof -
  show "consumer t' = Exited \<longrightarrow> consumer t = Exited \<or> in_flight t' = []"
    using assms(2)
    by (cases a)
       (auto simp: push_def wakeIfWaiting_def requestJoin_def setLoggers_def run_step_def
          unqueue_def in_flight_def queued_def split: if_splits consumer.splits)
  show "consumer t = Exited \<longrightarrow> consumer t' = Exited \<and> in_flight t' = in_flight t @ pushes [a]"
  proof (cases a)
    case (Push e)
    then have p: "push e t = Some t'" using assms(2) by simp
    have "queued t' = queued t @ [e]" using queued_push(1) [OF assms(1) p] .
    moreover have "consumer t' = consumer t"
      using p by (auto simp: push_def wakeIfWaiting_def split: if_splits)
    ultimately show ?thesis using Push by (auto simp: in_flight_def)
  next
    case Run
    then show ?thesis using assms(2) by (auto simp: run_step_def)
  next
    case Join
    then show ?thesis
      using assms(2) by (auto simp: requestJoin_def wakeIfWaiting_def in_flight_def queued_def)
  next
    case (SetLoggers ls)
    then show ?thesis
      using assms(2) by (auto simp: setLoggers_def in_flight_def queued_def split: if_splits)
  qed
qed

lemma exited_after:
  "thread_inv L P t \<Longrightarrow> exec bs t = Some t' \<Longrightarrow>
   (consumer t = Exited \<longrightarrow> length (in_flight t) \<le> k) \<Longrightarrow>
   (consumer t' = Exited \<longrightarrow> length (in_flight t') \<le> k + length (pushes bs))"
proof (induction bs arbitrary: L P t k)
  case Nil
  then show ?case by simp
next
  case (Cons a bs)
  then obtain t1 where t1: "step a t = Some t1" "exec bs t1 = Some t'"
    by (auto split: option.splits)
  have r: "ring_ok t" using Cons.prems(1) by (simp add: thread_inv_def consumer_ok_def)
  have inv1: "thread_inv (L \<union> installed [a]) (P @ pushes [a]) t1"
    using Cons.prems(1) t1(1) by (rule thread_inv_step)
  have "consumer t1 = Exited \<longrightarrow> length (in_flight t1) \<le> k + length (pushes [a])"
    using in_flight_step [OF r t1(1)] Cons.prems(3) by auto
  then have "consumer t' = Exited \<longrightarrow>
               length (in_flight t') \<le> k + length (pushes [a]) + length (pushes bs)"
    using Cons.IH [OF inv1 t1(2)] by blast
  moreover have "length (pushes (a # bs)) = length (pushes [a]) + length (pushes bs)"
    by (cases a) auto
  ultimately show ?case by (simp only: add.assoc)
qed

lemma wakeup_kept_step:
  assumes "consumer_ok L s" "wakeup_kept s" "step a s = Some s'"
  shows "wakeup_kept s'"
proof (cases a)
  case (Push e)
  then show ?thesis
    using assms
    by (cases "waiting s")
       (auto simp: wakeup_kept_def consumer_ok_def push_def wakeIfWaiting_def split: if_splits)
next
  case Run
  then show ?thesis
    using assms
    by (auto simp: wakeup_kept_def run_step_def unqueue_def split: if_splits consumer.splits)
next
  case Join
  then show ?thesis
    using assms
    by (cases "waiting s") (auto simp: wakeup_kept_def consumer_ok_def requestJoin_def wakeIfWaiting_def)
next
  case (SetLoggers ls)
  then show ?thesis
    using assms by (auto simp: wakeup_kept_def setLoggers_def split: if_splits)
qed

lemma wakeup_kept_exec:
  "thread_inv L P s \<Longrightarrow> wakeup_kept s \<Longrightarrow> exec as s = Some s' \<Longrightarrow> wakeup_kept s'"
proof (induction as arbitrary: L P s)
  case Nil
  then show ?case by simp
next
  case (Cons a as)
  then obtain s1 where s1: "step a s = Some s1" "exec as s1 = Some s'"
    by (auto split: option.splits)
  have "thread_inv (L \<union> installed [a]) (P @ pushes [a]) s1"
    using Cons.prems(1) s1(1) by (rule thread_inv_step)
  moreover have "wakeup_kept s1"
    using Cons.prems(1,2) s1(1) wakeup_kept_step [of L s a s1] by (simp add: thread_inv_def)
  ultimately show ?case using s1(2) by (rule Cons.IH)
qed

lemma wakeup_kept_started: "wakeup_kept (started_thread q ls)"
  by (simp add: wakeup_kept_def started_thread_def)

lemma in_flight_empty:
  "in_flight s = [] \<longleftrightarrow> m_queueSize s = 0 \<and> (\<forall>e ls. consumer s \<noteq> Logging e ls)"
  by (auto simp: in_flight_def queued_def split: consumer.splits)

lemma deliver_in_flight:
  "thread_inv L P s \<Longrightarrow> wakeup_kept s \<Longrightarrow> consumer s \<noteq> Exited \<Longrightarrow> steps_to_deliver s = n \<Longrightarrow>
   \<exists>s'. exec (replicate n Run) s = Some s' \<and> in_flight s' = [] \<and> thread_inv L P s'"
proof (induction n arbitrary: s rule: less_induct)
  case (less n)
  have ok: "consumer_ok L s" using less.prems(1) by (simp add: thread_inv_def)
  have nU: "consumer s \<noteq> Underflow" using ok by (simp add: consumer_ok_def)
  have goes_on: ?case
    if st: "run_step s = Some s'" and c: "consumer s' \<noteq> Exited" "consumer s' \<noteq> InWait"
      and m: "Suc (steps_to_deliver s') = n"
    for s'
  proof -
    have inv': "thread_inv L P s'" using less.prems(1) st by (rule thread_inv_run)
    have w: "wakeup_kept s'" using c(2) by (simp add: wakeup_kept_def)
    obtain s'' where "exec (replicate (steps_to_deliver s') Run) s' = Some s''"
      "in_flight s'' = []" "thread_inv L P s''"
      using less.IH [of "steps_to_deliver s'" s'] inv' w c m by auto
    then show ?thesis using st m by auto
  qed
  have there: ?case if "m_queueSize s = 0" "consumer s = AtLoopTop \<or> consumer s = InWait"
    using that less.prems by (auto simp: steps_to_deliver_def in_flight_empty)
  show ?case
  proof (cases "consumer s")
    case AtLoopTop
    show ?thesis
    proof (cases "m_queueSize s = 0")
      case True
      then show ?thesis using there AtLoopTop by simp
    next
      case False
      show ?thesis
        by (rule goes_on [of "unqueue s"])
           (use AtLoopTop False less.prems in \<open>auto simp: run_step_def steps_to_deliver_def unqueue_def\<close>)
    qed
  next
    case InWait
    show ?thesis
    proof (cases "m_queueSize s = 0")
      case True
      then show ?thesis using there InWait by simp
    next
      case False
      then have w: "woken s" using InWait less.prems(2) by (simp add: wakeup_kept_def)
      show ?thesis
        by (rule goes_on [of "unqueue (s\<lparr>woken := False, waiting := False\<rparr>)"])
           (use InWait False w less.prems in \<open>auto simp: run_step_def steps_to_deliver_def unqueue_def\<close>)
    qed
  next
    case (Logging e ls)
    show ?thesis
      by (rule goes_on [of "s\<lparr>logged := logged s @ map (\<lambda>l. (l, e)) ls, consumer := AtLoopTop\<rparr>"])
         (use Logging less.prems in \<open>auto simp: run_step_def steps_to_deliver_def\<close>)
  next
    case Exited
    then show ?thesis using less.prems by simp
  next
    case Underflow
    then show ?thesis using nU by simp
  qed
qed

lemma count_list_distinct: "distinct ls \<Longrightarrow> l \<in> set ls \<Longrightarrow> count_list ls l = 1"
  by (induction ls) (auto simp: count_list_0_iff)

lemma concat_replicate_one: "concat (map (replicate (Suc 0)) xs) = xs"
  by (induction xs) auto

lemma busy_schedule_run:
  "map_option logged (exec busy_schedule two_loggers) = Some [(''a'', 1), (''b'', 1)]"
  "map_option in_flight (exec busy_schedule two_loggers) = Some [2, 3, 4]"
  "map_option consumer (exec busy_schedule two_loggers) = Some (Logging 2 [''a'', ''b''])"
  by code_simp+

section \<open>Claims about the monitors and the logging thread\<close>

text \<open>
  Claim C1.  Whatever the interleaving of pushes, consumer steps, join request and changes
  of the logger list: the events that are no longer in the queue or in the consumer's hands
  are the first of the pushed events, and the logger calls made so far are these events in
  the order of the pushes, each fanned out to a logger list that was installed.  And as long
  as the consumer has not left its loop, letting it run delivers what is still in flight:
  it dequeues every remaining event, and then the logger calls are all the pushed events, in
  the order of the pushes, each fanned out to an installed logger list.  With an unchanged
  list of distinct loggers, every logger has then seen exactly the pushed events, in push
  order.
\<close>

theorem logged_in_push_order:
  assumes "length q = logQueueSize" and "exec as (started_thread q ls) = Some s"
  shows "(\<exists>D snaps. pushes as = D @ in_flight s \<and> length snaps = length D
           \<and> set snaps \<subseteq> insert ls (installed as)
           \<and> logged s = fan_out (zip D snaps)
           \<and> (\<forall>l. seen_by l s =
                  concat (map (\<lambda>(e, snap). replicate (count_list snap l) e) (zip D snaps)))
           \<and> (installed as = {} \<longrightarrow>
                  logged s = fan_out (map (\<lambda>e. (e, ls)) D)
                  \<and> (\<forall>l. seen_by l s = concat (map (replicate (count_list ls l)) D))))
       \<and> (consumer s \<noteq> Exited \<longrightarrow>
            (\<exists>n s'. exec (replicate n Run) s = Some s' \<and> in_flight s' = []
               \<and> (\<exists>snaps. length snaps = length (pushes as)
                      \<and> set snaps \<subseteq> insert ls (installed as)
                      \<and> logged s' = fan_out (zip (pushes as) snaps)
                      \<and> (\<forall>l. seen_by l s' =
                             concat (map (\<lambda>(e, snap). replicate (count_list snap l) e)
                                       (zip (pushes as) snaps))))
               \<and> (installed as = {} \<longrightarrow>
                      logged s' = fan_out (map (\<lambda>e. (e, ls)) (pushes as))
                      \<and> (\<forall>l. seen_by l s' = concat (map (replicate (count_list ls l)) (pushes as)))
                      \<and> (distinct ls \<longrightarrow> (\<forall>l \<in> set ls. seen_by l s' = pushes as)))))"
proof -
  let ?L = "{ls} \<union> installed as"
  have described: "\<exists>D snaps. pushes as = D @ in_flight u \<and> length snaps = length D
           \<and> set snaps \<subseteq> insert ls (installed as)
           \<and> logged u = fan_out (zip D snaps)
           \<and> (\<forall>l. seen_by l u =
                  concat (map (\<lambda>(e, snap). replicate (count_list snap l) e) (zip D snaps)))
           \<and> (installed as = {} \<longrightarrow>
                  logged u = fan_out (map (\<lambda>e. (e, ls)) D)
                  \<and> (\<forall>l. seen_by l u = concat (map (replicate (count_list ls l)) D)))"
    if inv: "thread_inv ?L (pushes as) u" for u :: "('a, 'b) logging_thread"
  proof -
    obtain D snaps where D: "pushes as = D @ in_flight u" "length snaps = length D"
      "set snaps \<subseteq> insert ls (installed as)" "logged u = fan_out (zip D snaps)"
      using inv by (auto simp: thread_inv_def delivered_in_order_def)
    have seen: "seen_by l u = concat (map (\<lambda>(e, snap). replicate (count_list snap l) e) (zip D snaps))"
      for l
      by (simp add: seen_by_def D(4) seen_by_fan_out)
    have fixed: "logged u = fan_out (map (\<lambda>e. (e, ls)) D)
          \<and> (\<forall>l. seen_by l u = concat (map (replicate (count_list ls l)) D))"
      if "installed as = {}"
    proof -
      have z: "zip D snaps = map (\<lambda>e. (e, ls)) D"
        using D(2,3) that by (intro zip_same_list) auto
      have "seen_by l u = concat (map (replicate (count_list ls l)) D)" for l
        unfolding seen z by (simp add: comp_def)
      then show ?thesis using D(4) z by simp
    qed
    show ?thesis using D seen fixed by blast
  qed
  have inv: "thread_inv ?L (pushes as) s"
    using thread_inv_exec [OF thread_inv_started [OF assms(1)] assms(2)] by simp
  have kept: "wakeup_kept s"
    using wakeup_kept_exec [OF thread_inv_started [OF assms(1)] wakeup_kept_started assms(2)] .
  have progress: "\<exists>n s'. exec (replicate n Run) s = Some s' \<and> in_flight s' = []
               \<and> (\<exists>snaps. length snaps = length (pushes as)
                      \<and> set snaps \<subseteq> insert ls (installed as)
                      \<and> logged s' = fan_out (zip (pushes as) snaps)
                      \<and> (\<forall>l. seen_by l s' =
                             concat (map (\<lambda>(e, snap). replicate (count_list snap l) e)
                                       (zip (pushes as) snaps))))
               \<and> (installed as = {} \<longrightarrow>
                      logged s' = fan_out (map (\<lambda>e. (e, ls)) (pushes as))
                      \<and> (\<forall>l. seen_by l s' = concat (map (replicate (count_list ls l)) (pushes as)))
                      \<and> (distinct ls \<longrightarrow> (\<forall>l \<in> set ls. seen_by l s' = pushes as)))"
    if alive: "consumer s \<noteq> Exited"
  proof -
    obtain s' where s': "exec (replicate (steps_to_deliver s) Run) s = Some s'"
      "in_flight s' = []" "thread_inv ?L (pushes as) s'"
      using deliver_in_flight [OF inv kept alive refl] by blast
    obtain D snaps where D: "pushes as = D @ in_flight s'" "length snaps = length D"
      "set snaps \<subseteq> insert ls (installed as)" "logged s' = fan_out (zip D snaps)"
      "\<forall>l. seen_by l s' = concat (map (\<lambda>(e, snap). replicate (count_list snap l) e) (zip D snaps))"
      "installed as = {} \<longrightarrow>
         logged s' = fan_out (map (\<lambda>e. (e, ls)) D)
         \<and> (\<forall>l. seen_by l s' = concat (map (replicate (count_list ls l)) D))"
      using described [OF s'(3)] by blast
    have DP: "D = pushes as" using D(1) s'(2) by simp
    have each: "seen_by l s' = pushes as"
      if "installed as = {}" "distinct ls" "l \<in> set ls" for l
      using D(6) that DP by (simp add: count_list_distinct concat_replicate_one)
    show ?thesis
      using s'(1,2) D(2-6) each unfolding DP
      by (intro exI [of _ "steps_to_deliver s"] exI [of _ s']) blast
  qed
  show ?thesis using described [OF inv] progress by blast
qed

theorem logged_in_push_order_witness:
  "length (replicate 16 (0::nat)) = logQueueSize
   \<and> (\<exists>s. exec busy_schedule two_loggers = Some s
        \<and> logged s = [(''a'', 1), (''b'', 1)] \<and> in_flight s = [2, 3, 4]
        \<and> consumer s \<noteq> Exited
        \<and> (\<exists>n s'. exec (replicate n Run) s = Some s' \<and> in_flight s' = []
              \<and> logged s' = [(''a'', 1), (''b'', 1), (''a'', 2), (''b'', 2),
                              (''a'', 3), (''b'', 3), (''a'', 4), (''b'', 4)]
              \<and> seen_by ''a'' s' = [1, 2, 3, 4] \<and> seen_by ''b'' s' = [1, 2, 3, 4]))"
proof -
  have h1: "length (replicate 16 (0::nat)) = logQueueSize" by (simp add: logQueueSize_def)
  obtain s where h2: "exec busy_schedule (started_thread (replicate 16 0) [''a'', ''b'']) = Some s"
    and s: "logged s = [(''a'', 1), (''b'', 1)]" "in_flight s = [2, 3, 4]"
      "consumer s = Logging 2 [''a'', ''b'']"
    using busy_schedule_run unfolding two_loggers_def by (auto simp: map_option_eq_Some)
  have alive: "consumer s \<noteq> Exited" using s(3) by simp
  have i: "installed busy_schedule = {}" by (simp add: installed_def busy_schedule_def)
  have p: "pushes busy_schedule = [1, 2, 3, 4]" by (simp add: busy_schedule_def)
  have d: "distinct [''a'', ''b'']" by simp
  note c = logged_in_push_order [OF h1 h2, THEN conjunct2, rule_format, OF alive]
  then obtain n s' where r: "exec (replicate n Run) s = Some s'" "in_flight s' = []"
    "logged s' = fan_out (map (\<lambda>e. (e, [''a'', ''b''])) (pushes busy_schedule))"
    "\<forall>l \<in> set [''a'', ''b'']. seen_by l s' = pushes busy_schedule"
    using i d by blast
  have "logged s' = [(''a'', 1), (''b'', 1), (''a'', 2), (''b'', 2),
                     (''a'', 3), (''b'', 3), (''a'', 4), (''b'', 4)]"
    using r(3) by (simp add: p fan_out_def)
  moreover have "seen_by ''a'' s' = [1, 2, 3, 4]" "seen_by ''b'' s' = [1, 2, 3, 4]"
    using r(4) p by simp_all
  ultimately show ?thesis
    using h1 h2 s(1,2) alive r(1,2) unfolding two_loggers_def by blast
qed

text \<open>
  Claim C2.  After any interleaving without a join request, in which K events were pushed
  (K may exceed the 16 slots, the consumer having made room in between): once the join is
  requested, the consumer left to run reaches the end of its loop, with the queue empty and
  every one of the K events logged, in order; in any continuation whatsoever in which the
  consumer has left its loop, the K events are among those logged; and a consumer step that
  leaves the loop starts from an empty queue with the join requested.
\<close>

theorem join_delivers_all_pushed:
  fixes s :: "('e, 'l) logging_thread"
  assumes "length q = logQueueSize" and "exec as (started_thread q ls) = Some s"
    and "Join \<notin> set as"
  shows "(\<exists>n s'. exec (Join # replicate n Run) s = Some s' \<and> consumer s' = Exited
             \<and> m_queueSize s' = 0 \<and> joinRequested s'
             \<and> (\<exists>snaps. length snaps = length (pushes as)
                    \<and> set snaps \<subseteq> insert ls (installed as)
                    \<and> logged s' = fan_out (zip (pushes as) snaps))
             \<and> (installed as = {} \<longrightarrow> logged s' = fan_out (map (\<lambda>e. (e, ls)) (pushes as))))
       \<and> (\<forall>bs s'. exec (Join # bs) s = Some s' \<and> consumer s' = Exited \<longrightarrow>
             (\<exists>D snaps. prefix (pushes as) D \<and> length snaps = length D
                \<and> logged s' = fan_out (zip D snaps)))
       \<and> (\<forall>u u' :: ('e, 'l) logging_thread. run_step u = Some u' \<and> consumer u' = Exited \<longrightarrow>
             m_queueSize u = 0 \<and> joinRequested u)"
proof -
  let ?L = "{ls} \<union> installed as"
  let ?P = "pushes as"
  have inv: "thread_inv ?L ?P s"
    using thread_inv_exec [OF thread_inv_started [OF assms(1)] assms(2)] by simp
  have nj: "\<not> joinRequested s"
    using no_join_requested [OF assms(2,3)] by (simp add: started_thread_def)
  have ok: "consumer_ok ?L s" using inv by (simp add: thread_inv_def)
  have nE: "consumer s \<noteq> Exited" using ok nj by (auto simp: consumer_ok_def)
  let ?t = "requestJoin s"
  have invt: "thread_inv ?L ?P ?t" using inv by (rule thread_inv_join)
  have t: "joinRequested ?t" "consumer ?t = consumer s" "consumer ?t = InWait \<longrightarrow> woken ?t"
    using ok by (auto simp: requestJoin_def wakeIfWaiting_def consumer_ok_def)
  obtain s' where s': "exec (replicate (steps_to_exit ?t) Run) ?t = Some s'"
    "consumer s' = Exited" "m_queueSize s' = 0" "thread_inv ?L ?P s'"
    using drain [OF invt t(1) t(3) _ refl] nE t(2) by auto
  have fl: "in_flight s' = []" using s'(2,3) by (simp add: in_flight_def queued_def)
  obtain snaps where snaps: "length snaps = length ?P" "set snaps \<subseteq> insert ls (installed as)"
    "logged s' = fan_out (zip ?P snaps)"
    using s'(4) fl by (auto simp: thread_inv_def delivered_in_order_def)
  have j': "joinRequested s'" using s'(2,4) by (auto simp: thread_inv_def consumer_ok_def)
  have fixed: "installed as = {} \<longrightarrow> logged s' = fan_out (map (\<lambda>e. (e, ls)) ?P)"
    using zip_same_list [of snaps ?P ls] snaps by auto
  have progress: "\<exists>n s'. exec (Join # replicate n Run) s = Some s' \<and> consumer s' = Exited
             \<and> m_queueSize s' = 0 \<and> joinRequested s'
             \<and> (\<exists>snaps. length snaps = length ?P
                    \<and> set snaps \<subseteq> insert ls (installed as)
                    \<and> logged s' = fan_out (zip ?P snaps))
             \<and> (installed as = {} \<longrightarrow> logged s' = fan_out (map (\<lambda>e. (e, ls)) ?P))"
    using s'(1,2,3) j' snaps fixed by (intro exI [of _ "steps_to_exit ?t"] exI [of _ s']) auto
  have safety: "\<exists>D snaps. prefix ?P D \<and> length snaps = length D \<and> logged u = fan_out (zip D snaps)"
    if run: "exec (Join # bs) s = Some u" and ex: "consumer u = Exited" for bs u
  proof -
    have e: "exec bs ?t = Some u" using run by simp
    have invu: "thread_inv (?L \<union> installed bs) (?P @ pushes bs) u"
      using invt e by (rule thread_inv_exec)
    have "length (in_flight u) \<le> 0 + length (pushes bs)"
      using exited_after [OF invt e, of 0] nE t(2) ex by simp
    moreover obtain D sn where D: "?P @ pushes bs = D @ in_flight u" "length sn = length D"
      "logged u = fan_out (zip D sn)"
      using invu by (auto simp: thread_inv_def delivered_in_order_def)
    moreover have "length ?P + length (pushes bs) = length D + length (in_flight u)"
      by (metis D(1) length_append)
    ultimately have "length ?P \<le> length D" by linarith
    then have "?P = take (length ?P) D"
      using D(1) by (simp add: append_eq_append_conv_if)
    then have "prefix ?P D" by (metis take_is_prefix)
    then show ?thesis using D by blast
  qed
  have only: "m_queueSize u = 0 \<and> joinRequested u"
    if "run_step u = Some u'" "consumer u' = Exited" for u u' :: "('e, 'l) logging_thread"
    using that
    by (auto simp: run_step_def unqueue_def split: consumer.splits if_splits)
  show ?thesis using progress safety only by blast
qed

theorem join_delivers_all_pushed_witness:
  "length (replicate 16 (0::nat)) = logQueueSize
   \<and> Join \<notin> set full_queue_schedule
   \<and> (\<exists>s. exec full_queue_schedule two_loggers = Some s
        \<and> (\<exists>n s'. exec (Join # replicate n Run) s = Some s' \<and> consumer s' = Exited
              \<and> m_queueSize s' = 0
              \<and> logged s' = fan_out (map (\<lambda>e. (e, [''a'', ''b''])) (pushes full_queue_schedule))))"
proof -
  have h1: "length (replicate 16 (0::nat)) = logQueueSize" by (simp add: logQueueSize_def)
  have "exec full_queue_schedule two_loggers \<noteq> None" by code_simp
  then obtain s where h2:
    "exec full_queue_schedule (started_thread (replicate 16 0) [''a'', ''b'']) = Some s"
    unfolding two_loggers_def by blast
  have h3: "Join \<notin> set full_queue_schedule" by (simp add: full_queue_schedule_def)
  have i: "installed full_queue_schedule = {}" by (simp add: installed_def full_queue_schedule_def)
  note c = join_delivers_all_pushed [OF h1 h2 h3, THEN conjunct1]
  then obtain n s' where r: "exec (Join # replicate n Run) s = Some s'" "consumer s' = Exited"
    "m_queueSize s' = 0"
    "installed full_queue_schedule = {} \<longrightarrow>
       logged s' = fan_out (map (\<lambda>e. (e, [''a'', ''b''])) (pushes full_queue_schedule))"
    by blast
  show ?thesis using h1 h2 h3 r i unfolding two_loggers_def by blast
qed

text \<open>
  Claim C7, at the input where the code departs from it.  With two loggers installed,
  \<open>removeLogger\<close> on the one installed first returns false and leaves both installed:
  the loop runs from \<open>m_loggerCount\<close> down to 1 and never looks at index 0.
\<close>

theorem removeLogger_first_installed:
  "removeLogger True (Some (1::nat)) True
      (snd (installLogger (Some 2) (snd (installLogger (Some 1) monitor_private_init))))
     = Some (False, snd (installLogger (Some 2) (snd (installLogger (Some 1) monitor_private_init))))
   \<and> loggers (snd (installLogger (Some 2) (snd (installLogger (Some (1::nat)) monitor_private_init))))
     = [Some 1, Some 2]"
  by code_simp

text \<open>
  Claim C10.  The frame number is 0 after the GPU resources are initialised and after they
  are finalised, and \<open>AfterRendering\<close> adds one to it while they are initialised.  So,
  after any sequence of callbacks on a new monitor, it is the number of \<open>AfterRendering\<close>
  callbacks since the resources were last initialised (in the counter's machine arithmetic),
  and an invalidation followed by an initialisation leaves it at 0 whatever came before.
\<close>

theorem frame_number_since_initialization:
  fixes m :: "'n::len word window_monitor"
  shows "frame_number (initializeGpuResources noGpuTimer m) = 0
    \<and> frame_number (finalizeGpuResources m) = 0
    \<and> frame_number (windowAfterRendering t g m) =
         (if gpuResourcesInitialized m then frame_number m + 1 else frame_number m)
    \<and> frame_number (deliver_all noGpuTimer cbs
          (new_window_monitor ident ov lg we fe sz ts :: 'n word window_monitor))
         = of_nat (snd (frames_since_initialization cbs))
    \<and> gpuResourcesInitialized (deliver_all noGpuTimer cbs
          (new_window_monitor ident ov lg we fe sz ts :: 'n word window_monitor))
         = fst (frames_since_initialization cbs)
    \<and> frame_number (deliver_all noGpuTimer
          (cbs @ [SceneGraphInvalidated, SceneGraphInitialized]) m) = 0"
proof -
  let ?m0 = "new_window_monitor ident ov lg we fe sz ts :: 'n word window_monitor"
  have run: "gpuResourcesInitialized (deliver_all noGpuTimer cbs ?m0)
               = fst (frames_since_initialization cbs)
        \<and> frame_number (deliver_all noGpuTimer cbs ?m0)
               = of_nat (snd (frames_since_initialization cbs))"
    unfolding deliver_all_def frames_since_initialization_def
    by (rule deliver_all_count) (simp_all add: new_window_monitor_def)
  have cycle: "frame_number (deliver_all noGpuTimer
          (cbs @ [SceneGraphInvalidated, SceneGraphInitialized]) m) = 0"
    by (simp add: deliver_all_def windowSceneGraphInvalidated_def windowSceneGraphInitialized_def
          initializeGpuResources_def finalizeGpuResources_def)
  show ?thesis
    using run cycle
    by (simp add: initializeGpuResources_def finalizeGpuResources_def windowAfterRendering_def
          Let_def)
qed

section \<open>Properties of the template parser\<close>

lemma new_text_fields [simp]:
  "characters (new_text parsedText buffer) = 0"
  "m_metrics (new_text parsedText buffer) ty = []"
  "m_buffer (new_text parsedText buffer) = buffer"
  "m_parsedText (new_text parsedText buffer) = parsedText"
  by (simp_all add: new_text_def)

lemma store_ok: "k < maxParsedTextSize \<Longrightarrow> store mem k c = Inr (mem(k := c))"
  by (simp add: store_def)

lemma store_fail: "maxParsedTextSize \<le> k \<Longrightarrow> store mem k c = Inl (WriteOutOfBounds k)"
  by (simp add: store_def)

lemma write_string_Nil [simp]: "write_string mem p [] = mem"
  by (auto simp: write_string_def fun_eq_iff)

lemma write_string_Cons:
  "write_string (mem(p := c)) (Suc p) s = write_string mem p (c # s)"
proof
  fix k
  show "write_string (mem(p := c)) (Suc p) s k = write_string mem p (c # s) k"
  proof (cases "k \<le> p")
    case True
    then show ?thesis by (auto simp: write_string_def)
  next
    case False
    then obtain d where "k = Suc p + d" by (metis Suc_leI add.commute le_add_diff_inverse2 not_le)
    then show ?thesis by (auto simp: write_string_def)
  qed
qed

lemma write_string_snoc:
  "(write_string mem p s)(p + length s := c) = write_string mem p (s @ [c])"
  by (auto simp: write_string_def fun_eq_iff nth_append)

lemma write_string_append:
  "write_string (write_string mem p a) (p + length a) b = write_string mem p (a @ b)"
  by (auto simp: write_string_def fun_eq_iff nth_append)

lemma emit_Nil [simp]: "emit st [] = st"
  by (simp add: emit_def)

lemma emit_emit: "emit (emit st a) b = emit st (a @ b)"
  by (simp add: emit_def write_string_append)

lemma emit_fields [simp]:
  "characters (emit st s) = characters st + length s"
  "m_buffer (emit st s) = m_buffer st"
  "m_metrics (emit st s) = m_metrics st"
  "m_parsedText (emit st s) = write_string (m_parsedText st) (characters st) s"
  by (simp_all add: emit_def)

lemma memset_write:
  "p + n \<le> maxParsedTextSize \<Longrightarrow> memset mem p c n = Inr (write_string mem p (replicate n c))"
proof (induction n arbitrary: mem p)
  case 0
  then show ?case by simp
next
  case (Suc n)
  then have "store mem p c = Inr (mem(p := c))" by (simp add: store_ok)
  moreover have "memset (mem(p := c)) (Suc p) c n
                   = Inr (write_string (mem(p := c)) (Suc p) (replicate n c))"
    using Suc.prems by (intro Suc.IH) simp
  ultimately show ?case by (simp add: write_string_Cons)
qed

lemma strcpy_from:
  assumes "k \<le> n" "n < bufferSize" "src n = NUL" "\<forall>j. k \<le> j \<and> j < n \<longrightarrow> src j \<noteq> NUL"
    and "dst + k \<le> maxParsedTextSize"
  shows "strcpy mem dst src k =
     (if dst + n < maxParsedTextSize
      then Inr (write_string mem (dst + k) (map src [k..<Suc n]))
      else Inl (WriteOutOfBounds maxParsedTextSize))"
  using assms
proof (induction "n - k" arbitrary: k mem)
  case 0
  then have kn: "k = n" by simp
  show ?case
  proof (cases "dst + n < maxParsedTextSize")
    case True
    then have "store mem (dst + n) (src n) = Inr (mem(dst + n := src n))" by (rule store_ok)
    moreover have "mem(dst + n := src n) = write_string mem (dst + n) [src n]"
      by (auto simp: write_string_def fun_eq_iff)
    ultimately show ?thesis
      using True "0.prems" kn by (subst strcpy.simps) simp
  next
    case False
    then have "dst + n = maxParsedTextSize" using "0.prems" kn by simp
    then show ?thesis
      using False "0.prems" kn by (subst strcpy.simps) (simp add: store_def)
  qed
next
  case (Suc d)
  then have lt: "k < n" and nz: "src k \<noteq> NUL" and kb: "k < bufferSize" by auto
  have IH: "strcpy mem' dst src (Suc k) =
     (if dst + n < maxParsedTextSize
      then Inr (write_string mem' (dst + Suc k) (map src [Suc k..<Suc n]))
      else Inl (WriteOutOfBounds maxParsedTextSize))" if "dst + Suc k \<le> maxParsedTextSize" for mem'
    using Suc.hyps(1) [of "Suc k" mem'] Suc.hyps(2) Suc.prems lt that by auto
  show ?case
  proof (cases "dst + k < maxParsedTextSize")
    case True
    then have st: "store mem (dst + k) (src k) = Inr (mem(dst + k := src k))" by (rule store_ok)
    have w: "write_string (mem(dst + k := src k)) (dst + Suc k) (map src [Suc k..<Suc n])
               = write_string mem (dst + k) (map src [k..<Suc n])"
      using lt write_string_Cons [of mem "dst + k" "src k" "map src [Suc k..<Suc n]"]
      by (simp add: upt_conv_Cons del: upt_Suc)
    show ?thesis
      using True st nz kb IH [of "mem(dst + k := src k)"] w
      by (subst strcpy.simps) (simp del: upt_Suc)
  next
    case False
    then have "dst + k = maxParsedTextSize" using Suc.prems by simp
    then show ?thesis
      using kb lt by (subst strcpy.simps) (simp add: store_def)
  qed
qed

lemma first_nul_Some:
  "first_nul buffer = Some n \<Longrightarrow> n < bufferSize \<and> buffer n = NUL \<and> (\<forall>j<n. buffer j \<noteq> NUL)"
proof -
  assume a: "first_nul buffer = Some n"
  then obtain i where i: "i < length [0..<bufferSize]" "buffer ([0..<bufferSize] ! i) = NUL"
    "n = [0..<bufferSize] ! i" "\<forall>j<i. \<not> buffer ([0..<bufferSize] ! j) = NUL"
    unfolding first_nul_def find_Some_iff by blast
  then show ?thesis by auto
qed

lemma strcpy_first_nul:
  assumes "first_nul src = Some n" "dst \<le> maxParsedTextSize"
  shows "strcpy mem dst src 0 =
     (if dst + n < maxParsedTextSize
      then Inr (write_string mem dst (map src [0..<Suc n]))
      else Inl (WriteOutOfBounds maxParsedTextSize))"
  using strcpy_from [of 0 n src dst mem] first_nul_Some [OF assms(1)] assms(2) by simp

lemma write_string_single: "mem(p := c) = write_string mem p [c]"
  by (auto simp: write_string_def fun_eq_iff)

lemma emit_single:
  "st\<lparr>m_parsedText := (m_parsedText st)(characters st := c), characters := Suc (characters st)\<rparr>
     = emit st [c]"
  by (simp add: emit_def write_string_single)

lemma parse_at_literal:
  assumes "text_at t i \<noteq> CHR ''%''" "characters st < maxParsedTextSize"
  shows "parse_at kw t i st = Inr (i, emit st [text_at t i])"
  using assms by (simp add: parse_at_def store_ok emit_single)

lemma parse_at_escape:
  assumes "text_at t i = CHR ''%''" "text_at t (i + 1) = CHR ''%''"
    "characters st < maxParsedTextSize"
  shows "parse_at kw t i st = Inr (i + 1, emit st ''%'')"
  using assms by (simp add: parse_at_def store_ok emit_single)

lemma parseLoop_next:
  assumes "i \<le> length t" "parse_at kw t i st = Inr (i', st')"
    "characters st' < maxParsedTextSize - 1"
  shows "parseLoop kw t i st = parseLoop kw t (i' + 1) st'"
  using assms by (subst parseLoop.simps) simp

lemma parseLoop_end: "length t < i \<Longrightarrow> parseLoop kw t i st = Inr st"
  by (subst parseLoop.simps) simp

lemma parseLoop_error:
  assumes "i \<le> length t" "parse_at kw t i st = Inl e"
  shows "parseLoop kw t i st = Inl e"
  using assms by (subst parseLoop.simps) simp

lemma parseLoop_truncate:
  assumes "i \<le> length t" "parse_at kw t i st = Inr (i', st')"
    "maxParsedTextSize - 1 \<le> characters st'"
  shows "parseLoop kw t i st =
           Inr (st'\<lparr>m_parsedText := (m_parsedText st')(maxParsedTextSize - 1 := NUL)\<rparr>)"
  using assms by (subst parseLoop.simps) (simp add: store_def maxParsedTextSize_def)

lemma parseLoop_literal:
  assumes "i + n \<le> length t" "CHR ''%'' \<notin> set (take n (drop i t))"
    "characters st + n < maxParsedTextSize - 1"
  shows "parseLoop kw t i st = parseLoop kw t (i + n) (emit st (take n (drop i t)))"
  using assms
proof (induction n arbitrary: i st)
  case 0
  then show ?case by simp
next
  case (Suc n)
  then have i: "i < length t" by simp
  then have split: "take (Suc n) (drop i t) = t ! i # take n (drop (Suc i) t)"
    by (simp add: Cons_nth_drop_Suc [symmetric])
  then have c: "text_at t i \<noteq> CHR ''%''" and rest: "CHR ''%'' \<notin> set (take n (drop (Suc i) t))"
    using Suc.prems(2) i by (auto simp: text_at_def)
  have "parse_at kw t i st = Inr (i, emit st [t ! i])"
    using parse_at_literal [OF c, of st kw] Suc.prems(3) i by (simp add: text_at_def)
  then have "parseLoop kw t i st = parseLoop kw t (Suc i) (emit st [t ! i])"
    using parseLoop_next [of i t kw st i "emit st [t ! i]"] i Suc.prems(3) by simp
  also have "\<dots> = parseLoop kw t (Suc i + n) (emit (emit st [t ! i]) (take n (drop (Suc i) t)))"
    using Suc.prems rest by (intro Suc.IH) simp_all
  finally show ?case by (simp add: emit_emit split)
qed

lemma parseLoop_terminator:
  assumes "characters st + 1 < maxParsedTextSize - 1"
  shows "parseLoop kw t (length t) st = Inr (emit st [NUL])"
proof -
  have "text_at t (length t) = NUL" by (simp add: text_at_def)
  then have "parse_at kw t (length t) st = Inr (length t, emit st [NUL])"
    using parse_at_literal [of t "length t" st kw] assms by (simp add: NUL_def)
  then have "parseLoop kw t (length t) st = parseLoop kw t (length t + 1) (emit st [NUL])"
    using assms by (intro parseLoop_next) simp_all
  then show ?thesis by (simp add: parseLoop_end)
qed

lemma parseLoop_tail:
  assumes "i \<le> length t" "CHR ''%'' \<notin> set (drop i t)"
    "characters st + (length t - i) + 1 < maxParsedTextSize - 1"
  shows "parseLoop kw t i st = Inr (emit st (drop i t @ [NUL]))"
proof -
  have "parseLoop kw t i st = parseLoop kw t (i + (length t - i)) (emit st (take (length t - i) (drop i t)))"
    using assms by (intro parseLoop_literal) simp_all
  also have "\<dots> = parseLoop kw t (length t) (emit st (drop i t))"
    using assms(1) by simp
  also have "\<dots> = Inr (emit (emit st (drop i t)) [NUL])"
    using assms by (intro parseLoop_terminator) simp
  finally show ?thesis by (simp add: emit_emit)
qed

lemma c_string_write_string:
  assumes "NUL \<notin> set s" "length s < maxParsedTextSize"
  shows "c_string (write_string mem 0 (s @ NUL # r)) = s"
proof -
  have "[0..<maxParsedTextSize] = [0..<length s] @ length s # [Suc (length s)..<maxParsedTextSize]"
    using assms(2) upt_add_eq_append [of 0 "length s" "maxParsedTextSize - length s"]
    by (simp add: upt_conv_Cons)
  moreover have "map (write_string mem 0 (s @ NUL # r)) [0..<length s] = s"
    by (rule nth_equalityI) (simp_all add: write_string_def nth_append)
  moreover have "write_string mem 0 (s @ NUL # r) (length s) = NUL"
    by (simp add: write_string_def nth_append)
  ultimately show ?thesis
    using assms(1) by (simp add: c_string_def takeWhile_append)
qed

lemma parseText_percent_escape:
  assumes "CHR ''%'' \<notin> set pre" "CHR ''%'' \<notin> set post"
    "length pre + length post + 2 < maxParsedTextSize - 1"
  shows "parseText kw (pre @ ''%%'' @ post) parsedText buffer =
     Inr (emit (new_text parsedText buffer) (pre @ ''%'' @ post @ [NUL]))"
proof -
  define t where "t = pre @ ''%%'' @ post"
  define st0 where "st0 = new_text parsedText buffer"
  have len: "length t = length pre + 2 + length post" by (simp add: t_def)
  have c0: "characters st0 = 0" by (simp add: st0_def new_text_def)
  have "parseLoop kw t 0 st0 = parseLoop kw t (0 + length pre) (emit st0 (take (length pre) (drop 0 t)))"
    using assms c0 by (intro parseLoop_literal) (simp_all add: t_def)
  then have a: "parseLoop kw t 0 st0 = parseLoop kw t (length pre) (emit st0 pre)"
    by (simp add: t_def)
  have "text_at t (length pre) = CHR ''%''" "text_at t (length pre + 1) = CHR ''%''"
    by (simp_all add: text_at_def t_def nth_append)
  then have "parse_at kw t (length pre) (emit st0 pre) = Inr (length pre + 1, emit (emit st0 pre) ''%'')"
    using assms(3) c0 by (intro parse_at_escape) simp_all
  then have b: "parseLoop kw t (length pre) (emit st0 pre)
                  = parseLoop kw t (length pre + 2) (emit st0 (pre @ ''%''))"
    using parseLoop_next [of "length pre" t kw "emit st0 pre" "length pre + 1" "emit (emit st0 pre) ''%''"]
      assms(3) c0 len by (simp add: emit_emit)
  have "parseLoop kw t (length pre + 2) (emit st0 (pre @ ''%''))
          = Inr (emit (emit st0 (pre @ ''%'')) (drop (length pre + 2) t @ [NUL]))"
    using assms c0 len by (intro parseLoop_tail) (simp_all add: t_def)
  then have c: "parseLoop kw t (length pre + 2) (emit st0 (pre @ ''%''))
          = Inr (emit st0 (pre @ ''%'' @ post @ [NUL]))"
    by (simp add: emit_emit t_def)
  show ?thesis
    unfolding parseText_def using a b c by (simp add: t_def st0_def)
qed

lemma emit_m_metrics: "emit (st\<lparr>m_metrics := f\<rparr>) s = (emit st s)\<lparr>m_metrics := f\<rparr>"
  by (simp add: emit_def)

lemma emit_m_buffer: "emit (st\<lparr>m_buffer := b\<rparr>) s = (emit st s)\<lparr>m_buffer := b\<rparr>"
  by (simp add: emit_def)

lemma find_keyword_None:
  "find_keyword t p = None \<longleftrightarrow> (\<forall>name \<in> set keywordInfo. \<not> strncmp_eq t p name)"
  by (simp add: find_keyword_def find_None_iff all_set_conv_all_nth)

lemma find_metric_None:
  "find_metric t p metrics = None \<longleftrightarrow>
     (\<forall>(name, defaultWidth, ty) \<in> set metricInfo.
        strncmp_eq t p name \<longrightarrow> maxMetricsPerType \<le> length (metrics ty))"
  by (fastforce simp: find_metric_def find_None_iff in_set_conv_nth not_less split: prod.splits)

lemma parse_at_fails_to_bind:
  assumes "text_at t i = CHR ''%''" "text_at t (i + 1) \<noteq> CHR ''%''" "fails_to_bind kw t i st"
  shows "\<exists>buffer. parse_at kw t i st = Inr (i, st\<lparr>m_buffer := buffer\<rparr>)"
proof (cases "find_keyword t (i + 1)")
  case (Some j)
  then have "parse_at kw t i st = Inr (i, st\<lparr>m_buffer := fst (keywordString kw j (m_buffer st))\<rparr>)"
    using assms by (auto simp: parse_at_def fails_to_bind_def Let_def split: prod.splits)
  then show ?thesis by blast
next
  case None
  have "st\<lparr>m_buffer := m_buffer st\<rparr> = st" by simp
  moreover have "parse_at kw t i st = Inr (i, st)"
    using assms None
    by (auto simp: parse_at_def fails_to_bind_def metric_width_def split: prod.splits option.splits)
  ultimately show ?thesis by metis
qed

lemma parse_at_metric:
  assumes "text_at t i = CHR ''%''" "text_at t (i + 1) \<noteq> CHR ''%''" "find_keyword t (i + 1) = None"
    "parse_width t (i + 1) = (w, wo)" "find_metric t (i + 1 + wo) (m_metrics st) = Some j"
    "metricInfo ! j = (name, dw, ty)" "int n = (if w = -1 then int dw else w)"
    "characters st + n < maxParsedTextSize"
  shows "parse_at kw t i st = Inr (i + wo + length name, bind_slot st j ty n)"
proof -
  have "memset (m_parsedText st) (characters st) (CHR ''?'') n
          = Inr (write_string (m_parsedText st) (characters st) (replicate n (CHR ''?'')))"
    using assms(8) by (intro memset_write) simp
  moreover have "nat (if w = -1 then int dw else w) = n"
    using assms(7) by (metis nat_int)
  moreover have "(if w = -1 then int dw else w) < int maxParsedTextSize - int (characters st)"
    using assms(7,8) by linarith
  ultimately show ?thesis
    using assms(1-6) by (simp add: parse_at_def bind_slot_def emit_def)
qed

lemma parse_at_keyword:
  assumes "text_at t i = CHR ''%''" "text_at t (i + 1) \<noteq> CHR ''%''" "find_keyword t (i + 1) = Some j"
    "keywordString kw j (m_buffer st) = (buffer, n)" "characters st + n < maxParsedTextSize"
    "first_nul buffer = Some z"
  shows "parse_at kw t i st =
     (if characters st + z < maxParsedTextSize
      then Inr (i + length (keywordInfo ! j),
                st\<lparr>m_buffer := buffer,
                   m_parsedText := write_string (m_parsedText st) (characters st) (map buffer [0..<Suc z]),
                   characters := characters st + n\<rparr>)
      else Inl (WriteOutOfBounds maxParsedTextSize))"
proof -
  have "strcpy (m_parsedText st) (characters st) buffer 0 =
     (if characters st + z < maxParsedTextSize
      then Inr (write_string (m_parsedText st) (characters st) (map buffer [0..<Suc z]))
      else Inl (WriteOutOfBounds maxParsedTextSize))"
    using assms(5,6) by (intro strcpy_first_nul) simp_all
  moreover have "int n < int maxParsedTextSize - int (characters st)"
    using assms(5) by linarith
  ultimately show ?thesis
    using assms(1-4) by (simp add: parse_at_def del: upt_Suc)
qed

lemma percent_in_text: "text_at t i = CHR ''%'' \<Longrightarrow> i < length t"
  by (auto simp: text_at_def NUL_def split: if_splits)

lemma parseLoop_fails_to_bind:
  assumes "text_at t i = CHR ''%''" "text_at t (i + 1) \<noteq> CHR ''%''" "fails_to_bind kw t i st"
    "characters st < maxParsedTextSize - 1"
  shows "\<exists>buffer. parse_at kw t i st = Inr (i, st\<lparr>m_buffer := buffer\<rparr>)
           \<and> parseLoop kw t i st = parseLoop kw t (i + 1) (st\<lparr>m_buffer := buffer\<rparr>)"
proof -
  obtain buffer where p: "parse_at kw t i st = Inr (i, st\<lparr>m_buffer := buffer\<rparr>)"
    using parse_at_fails_to_bind [OF assms(1-3)] by blast
  have "i \<le> length t" using percent_in_text [OF assms(1)] by simp
  then have "parseLoop kw t i st = parseLoop kw t (i + 1) (st\<lparr>m_buffer := buffer\<rparr>)"
    using p assms(4) by (intro parseLoop_next) simp_all
  with p show ?thesis by blast
qed

lemma strncmp_eq_window:
  "length name \<le> n \<Longrightarrow> strncmp_eq t p name = strncmp_eq (take n (drop p t)) 0 name"
  by (simp add: strncmp_eq_def min_def)

lemma keyword_sizes: "\<forall>name \<in> set keywordInfo. length name \<le> 11"
  by (simp add: keywordInfo_def)

lemma metric_sizes: "\<forall>(name, defaultWidth, ty) \<in> set metricInfo. length name \<le> 11"
  by (simp add: metricInfo_def)

lemma find_keyword_window: "find_keyword t p = find_keyword (take 11 (drop p t)) 0"
  unfolding find_keyword_def
proof (rule find_cong [OF refl])
  fix j assume "j \<in> set [0..<length keywordInfo]"
  then have "length (keywordInfo ! j) \<le> 11" using keyword_sizes by simp
  then show "strncmp_eq t p (keywordInfo ! j) = strncmp_eq (take 11 (drop p t)) 0 (keywordInfo ! j)"
    by (rule strncmp_eq_window)
qed

lemma find_metric_window: "find_metric t p metrics = find_metric (take 11 (drop p t)) 0 metrics"
  unfolding find_metric_def
proof (rule find_cong [OF refl])
  fix j assume "j \<in> set [0..<length metricInfo]"
  then have "metricInfo ! j \<in> set metricInfo" by simp
  then have "length (fst (metricInfo ! j)) \<le> 11" using metric_sizes by fastforce
  then have "strncmp_eq t p (fst (metricInfo ! j))
               = strncmp_eq (take 11 (drop p t)) 0 (fst (metricInfo ! j))"
    by (rule strncmp_eq_window)
  then show "(case metricInfo ! j of (name, defaultWidth, ty) \<Rightarrow>
                length (metrics ty) < maxMetricsPerType \<and> strncmp_eq t p name)
           = (case metricInfo ! j of (name, defaultWidth, ty) \<Rightarrow>
                length (metrics ty) < maxMetricsPerType \<and> strncmp_eq (take 11 (drop p t)) 0 name)"
    by (cases "metricInfo ! j") auto
qed

lemma keyword_indices: "[0..<length keywordInfo] = [0, 1, 2, 3, 4]"
  by code_simp

lemma metric_indices: "[0..<length metricInfo] = [0, 1, 2, 3, 4, 5, 6, 7, 8, 9, 10, 11]"
  by code_simp

lemma frameNumber_no_keyword: "find_keyword ''frameNumber'' 0 = None"
  by code_simp

lemma frameNumber_metric:
  "find_metric ''frameNumber'' 0 metrics
     = (if length (metrics Frame) < maxMetricsPerType then Some 6 else None)"
  by (simp add: find_metric_def metric_indices metricInfo_def strncmp_eq_def)

lemma frameNumber_info: "metricInfo ! 6 = (''frameNumber'', 7, Frame)"
  by (simp add: metricInfo_def)

lemma frameNumber_at:
  assumes "take 12 (drop i t) = ''%frameNumber''"
  shows "text_at t i = CHR ''%''" "text_at t (i + 1) \<noteq> CHR ''%''"
    "find_keyword t (i + 1) = None" "parse_width t (i + 1) = (-1, 0)"
    "find_metric t (i + 1) metrics
       = (if length (metrics Frame) < maxMetricsPerType then Some 6 else None)"
proof -
  have d: "drop i t = ''%frameNumber'' @ drop 12 (drop i t)"
    using assms append_take_drop_id [of 12 "drop i t"] by simp
  have len: "i + 12 \<le> length t"
    using arg_cong [OF assms, of length] by simp
  have "t ! i = CHR ''%''" using d by (intro nth_via_drop) simp
  then show "text_at t i = CHR ''%''" using len by (simp add: text_at_def)
  have d1: "drop (i + 1) t = ''frameNumber'' @ drop 12 (drop i t)"
    using arg_cong [OF d, of "drop 1"] by simp
  then have "t ! (i + 1) = CHR ''f''" by (intro nth_via_drop) simp
  then have f: "text_at t (i + 1) = CHR ''f''" using len by (simp add: text_at_def)
  then show "text_at t (i + 1) \<noteq> CHR ''%''" by simp
  have w: "take 11 (drop (i + 1) t) = ''frameNumber''" using d1 by simp
  show "find_keyword t (i + 1) = None"
    using find_keyword_window [of t "i + 1"] w frameNumber_no_keyword by simp
  show "parse_width t (i + 1) = (-1, 0)"
    using f by (simp add: parse_width_def isdigit_def)
  show "find_metric t (i + 1) metrics
       = (if length (metrics Frame) < maxMetricsPerType then Some 6 else None)"
    using find_metric_window [of t "i + 1" metrics] w frameNumber_metric by simp
qed

lemma frameNumber_binds:
  assumes "take 12 (drop i t) = ''%frameNumber''" "length (m_metrics st Frame) < maxMetricsPerType"
    "characters st + 7 < maxParsedTextSize - 1"
  shows "parseLoop kw t i st = parseLoop kw t (i + 12) (bind_slot st 6 Frame 7)"
proof -
  note at = frameNumber_at [OF assms(1)]
  have p: "parse_at kw t i st = Inr (i + 0 + length ''frameNumber'', bind_slot st 6 Frame 7)"
  proof (rule parse_at_metric [OF at(1) at(2) at(3) at(4) _ frameNumber_info])
    show "find_metric t (i + 1 + 0) (m_metrics st) = Some 6" using at(5) assms(2) by simp
    show "int 7 = (if (-1::int) = -1 then int 7 else -1)" by simp
    show "characters st + 7 < maxParsedTextSize" using assms(3) by simp
  qed
  have le: "i \<le> length t" using percent_in_text [OF at(1)] by simp
  have c: "characters (bind_slot st 6 Frame 7) < maxParsedTextSize - 1"
    using assms(3) by (simp add: bind_slot_def)
  have "i + 0 + length ''frameNumber'' + 1 = i + 12" by simp
  then show ?thesis
    using parseLoop_next [OF le p c] by (simp only:)
qed

lemma frameNumber_run:
  assumes "\<forall>k<n. take 12 (drop (i + 12 * k) t) = ''%frameNumber''"
    "length (m_metrics st Frame) + n \<le> maxMetricsPerType"
    "characters st + 7 * n < maxParsedTextSize - 1"
  shows "parseLoop kw t i st = parseLoop kw t (i + 12 * n) (bind_frameNumbers n st)"
  using assms
proof (induction n arbitrary: i st)
  case 0
  then show ?case by simp
next
  case (Suc n)
  have "take 12 (drop i t) = ''%frameNumber''" using Suc.prems(1) [rule_format, of 0] by simp
  then have "parseLoop kw t i st = parseLoop kw t (i + 12) (bind_slot st 6 Frame 7)"
    using Suc.prems by (intro frameNumber_binds) simp_all
  also have "\<dots> = parseLoop kw t (i + 12 + 12 * n) (bind_frameNumbers n (bind_slot st 6 Frame 7))"
  proof (rule Suc.IH)
    show "\<forall>k<n. take 12 (drop (i + 12 + 12 * k) t) = ''%frameNumber''"
      using Suc.prems(1) [rule_format, of "Suc k" for k] by (simp add: add.assoc)
    show "length (m_metrics (bind_slot st 6 Frame 7) Frame) + n \<le> maxMetricsPerType"
      using Suc.prems(2) by (simp add: bind_slot_def)
    show "characters (bind_slot st 6 Frame 7) + 7 * n < maxParsedTextSize - 1"
      using Suc.prems(3) by (simp add: bind_slot_def)
  qed
  finally show ?case by (simp add: add.assoc)
qed

lemma bind_frameNumbers_fields:
  "characters (bind_frameNumbers n st) = characters st + 7 * n"
  "m_buffer (bind_frameNumbers n st) = m_buffer st"
  "m_parsedText (bind_frameNumbers n st)
     = write_string (m_parsedText st) (characters st) (replicate (7 * n) (CHR ''?''))"
  "length (m_metrics (bind_frameNumbers n st) Frame) = length (m_metrics st Frame) + n"
proof (induction n arbitrary: st)
  case 0
  {
    case 1 show ?case by simp
  next
    case 2 show ?case by simp
  next
    case 3 show ?case by simp
  next
    case 4 show ?case by simp
  }
next
  case (Suc n)
  {
    case 1 show ?case by (simp add: Suc.IH bind_slot_def)
  next
    case 2 show ?case by (simp add: Suc.IH bind_slot_def)
  next
    case 3
    have "replicate (7 * Suc n) (CHR ''?'') = replicate 7 (CHR ''?'') @ replicate (7 * n) (CHR ''?'')"
      by (simp add: replicate_add [symmetric])
    then show ?case
      using write_string_append [of "m_parsedText st" "characters st" "replicate 7 (CHR ''?'')"
          "replicate (7 * n) (CHR ''?'')"]
      by (simp add: Suc.IH bind_slot_def)
  next
    case 4 show ?case by (simp add: Suc.IH bind_slot_def)
  }
qed

lemma parse_at_no_match:
  assumes "text_at t i = CHR ''%''" "text_at t (i + 1) \<noteq> CHR ''%''" "find_keyword t (i + 1) = None"
    "find_metric t (i + 1 + snd (parse_width t (i + 1))) (m_metrics st) = None"
  shows "parse_at kw t i st = Inr (i, st)"
  using assms by (cases "parse_width t (i + 1)") (simp add: parse_at_def)

lemma seventeen_text:
  "\<forall>k<16. take 12 (drop (0 + 12 * k) seventeen_frame_placeholders) = ''%frameNumber''"
  "take 12 (drop 192 seventeen_frame_placeholders) = ''%frameNumber''"
  "drop 193 seventeen_frame_placeholders = ''frameNumber''"
  "length seventeen_frame_placeholders = 204"
proof -
  have "list_all (\<lambda>k. take 12 (drop (0 + 12 * k) seventeen_frame_placeholders) = ''%frameNumber'')
          [0..<16]"
    by code_simp
  then show "\<forall>k<16. take 12 (drop (0 + 12 * k) seventeen_frame_placeholders) = ''%frameNumber''"
    by (simp add: list_all_iff)
  show "take 12 (drop 192 seventeen_frame_placeholders) = ''%frameNumber''" by code_simp
  show "drop 193 seventeen_frame_placeholders = ''frameNumber''" by code_simp
  show "length seventeen_frame_placeholders = 204" by code_simp
qed

lemma parseText_seventeen:
  "parseText kw seventeen_frame_placeholders parsedText buffer
     = Inr (emit (bind_frameNumbers 16 (new_text parsedText buffer)) (''frameNumber'' @ [NUL]))"
proof -
  define t where "t = seventeen_frame_placeholders"
  define st0 where "st0 = new_text parsedText buffer"
  note facts = seventeen_text [folded t_def]
  have "parseLoop kw t 0 st0 = parseLoop kw t (0 + 12 * 16) (bind_frameNumbers 16 st0)"
    using facts(1) by (intro frameNumber_run) (simp_all add: st0_def maxMetricsPerType_def maxParsedTextSize_def)
  then have a: "parseLoop kw t 0 st0 = parseLoop kw t 192 (bind_frameNumbers 16 st0)" by simp
  note at = frameNumber_at [OF facts(2)]
  have c: "characters (bind_frameNumbers 16 st0) = 112" by (simp add: bind_frameNumbers_fields st0_def)
  have "find_metric t (192 + 1 + snd (parse_width t (192 + 1))) (m_metrics (bind_frameNumbers 16 st0)) = None"
    using at(4) at(5) [of "m_metrics (bind_frameNumbers 16 st0)"]
    by (simp add: bind_frameNumbers_fields st0_def maxMetricsPerType_def)
  then have "parse_at kw t 192 (bind_frameNumbers 16 st0) = Inr (192, bind_frameNumbers 16 st0)"
    using at(1-3) by (intro parse_at_no_match)
  then have "parseLoop kw t 192 (bind_frameNumbers 16 st0) = parseLoop kw t (192 + 1) (bind_frameNumbers 16 st0)"
    using facts(4) c by (intro parseLoop_next) (simp_all add: maxParsedTextSize_def)
  also have "\<dots> = Inr (emit (bind_frameNumbers 16 st0) (drop (192 + 1) t @ [NUL]))"
    using facts(3,4) c by (intro parseLoop_tail) (simp_all add: maxParsedTextSize_def)
  finally show ?thesis
    using a facts(3) by (simp add: parseText_def t_def st0_def)
qed

lemma seventeen_parsed:
  "parsed_string (parseText kw seventeen_frame_placeholders parsedText buffer)
     = Some (replicate 112 (CHR ''?'') @ ''frameNumber'')"
  "length (bound_slots (parseText kw seventeen_frame_placeholders parsedText buffer) Frame) = 16"
proof -
  have "write_string (write_string parsedText 0 (replicate 112 (CHR ''?'')))
          (0 + length (replicate 112 (CHR ''?''))) (''frameNumber'' @ [NUL])
        = write_string parsedText 0 (replicate 112 (CHR ''?'') @ ''frameNumber'' @ [NUL])"
    by (rule write_string_append)
  moreover have "c_string (write_string parsedText 0
                   ((replicate 112 (CHR ''?'') @ ''frameNumber'') @ NUL # [])) 
                 = replicate 112 (CHR ''?'') @ ''frameNumber''"
    by (rule c_string_write_string) (simp_all add: NUL_def maxParsedTextSize_def)
  ultimately show "parsed_string (parseText kw seventeen_frame_placeholders parsedText buffer)
     = Some (replicate 112 (CHR ''?'') @ ''frameNumber'')"
    by (simp add: parseText_seventeen parsed_string_def bind_frameNumbers_fields)
  show "length (bound_slots (parseText kw seventeen_frame_placeholders parsedText buffer) Frame) = 16"
    by (simp add: parseText_seventeen bound_slots_def bind_frameNumbers_fields)
qed

lemma overflow_text:
  "length overflow_template = 950"
  "text_at overflow_template 0 = CHR ''%''" "text_at overflow_template (0 + 1) \<noteq> CHR ''%''"
  "find_keyword overflow_template (0 + 1) = Some 4"
  "CHR ''%'' \<notin> set (take 931 (drop 9 overflow_template))"
  "text_at overflow_template 940 = CHR ''%''" "text_at overflow_template (940 + 1) \<noteq> CHR ''%''"
  "find_keyword overflow_template (940 + 1) = Some 0"
  by code_simp+

lemma example_buffers:
  "snd (keywordString example_keywords 4 zeroed) = 83"
  "first_nul gpu_buffer = Some 83"
  "snd (keywordString example_keywords 0 gpu_buffer) = 8"
  "first_nul qt_buffer = Some 83"
  "length (keywordInfo ! 4) = 8"
  by code_simp+

lemma parse_at_without_keyword:
  assumes "characters st < maxParsedTextSize - 1" "find_keyword t (i + 1) = None"
  shows "\<exists>i' st'. parse_at kw t i st = Inr (i', st') \<and> characters st' \<le> maxParsedTextSize - 1"
proof (cases "text_at t i \<noteq> CHR ''%'' \<or> text_at t (i + 1) = CHR ''%''")
  case True
  then show ?thesis
    using assms(1) by (auto simp: parse_at_def store_ok)
next
  case False
  obtain w wo where pw: "parse_width t (i + 1) = (w, wo)" by (cases "parse_width t (i + 1)")
  show ?thesis
  proof (cases "find_metric t (i + 1 + wo) (m_metrics st)")
    case None
    then show ?thesis using False assms pw by (simp add: parse_at_def)
  next
    case (Some j)
    obtain name dw ty where mi: "metricInfo ! j = (name, dw, ty)" by (cases "metricInfo ! j")
    define width where "width = (if w = -1 then int dw else w)"
    show ?thesis
    proof (cases "width < int maxParsedTextSize - int (characters st)")
      case True
      then have w: "characters st + nat width \<le> maxParsedTextSize - 1"
        using assms(1) by (cases "0 \<le> width") (auto simp: nat_less_iff le_nat_iff nat_add_distrib)
      then have "characters st + nat width \<le> maxParsedTextSize" by simp
      then have "memset (m_parsedText st) (characters st) (CHR ''?'') (nat width)
                   = Inr (write_string (m_parsedText st) (characters st) (replicate (nat width) (CHR ''?'')))"
        by (rule memset_write)
      moreover note w
      ultimately show ?thesis
        using False assms pw Some mi True by (auto simp: parse_at_def width_def split: if_splits)
    next
      case no: False
      then show ?thesis
        using False assms pw Some mi by (simp add: parse_at_def width_def)
    qed
  qed
qed

lemma parseLoop_without_keywords:
  assumes "\<forall>p. find_keyword t p = None" "characters st < maxParsedTextSize - 1"
  shows "\<exists>st'. parseLoop kw t i st = Inr st' \<and> characters st' \<le> maxParsedTextSize - 1"
  using assms
proof (induction kw t i st rule: parseLoop.induct)
  case (1 kw t i st)
  show ?case
  proof (cases "i \<le> length t")
    case False
    then show ?thesis using "1.prems" by (simp add: parseLoop_end)
  next
    case True
    obtain i' st' where p: "parse_at kw t i st = Inr (i', st')"
      and c: "characters st' \<le> maxParsedTextSize - 1"
      using parse_at_without_keyword [of st t i kw, OF "1.prems"(2) "1.prems"(1) [rule_format]] by blast
    show ?thesis
    proof (cases "maxParsedTextSize - 1 \<le> characters st'")
      case t: True
      then show ?thesis using parseLoop_truncate [OF True p t] c by simp
    next
      case f: False
      then have "\<exists>st''. parseLoop kw t (i' + 1) st' = Inr st'' \<and> characters st'' \<le> maxParsedTextSize - 1"
        using "1.IH" [OF True p refl _ "1.prems"(1)] by simp
      moreover have "parseLoop kw t i st = parseLoop kw t (i' + 1) st'"
        using True p f by (intro parseLoop_next) simp_all
      ultimately show ?thesis by simp
    qed
  qed
qed

lemma parseLoop_literal_cut:
  assumes "0 < m" "i + m \<le> length t" "CHR ''%'' \<notin> set (take m (drop i t))"
    "characters st + m = maxParsedTextSize - 1"
  shows "parseLoop kw t i st = Inr (cut_at_capacity (emit st (take m (drop i t))))"
proof -
  obtain k where m: "m = Suc k" using assms(1) by (cases m) auto
  have ik: "i + k < length t" using assms(2) m by simp
  have last: "take m (drop i t) = take k (drop i t) @ [t ! (i + k)]"
    using ik by (simp add: m take_Suc_conv_app_nth)
  define st2 where "st2 = emit st (take k (drop i t))"
  have "parseLoop kw t i st = parseLoop kw t (i + k) st2"
    unfolding st2_def using assms m last by (intro parseLoop_literal) auto
  moreover have c: "text_at t (i + k) \<noteq> CHR ''%''"
    using assms(3) ik last by (auto simp: text_at_def)
  have c2: "characters st2 = characters st + k" using ik by (simp add: st2_def)
  have "parse_at kw t (i + k) st2 = Inr (i + k, emit st2 [text_at t (i + k)])"
    using c c2 assms(4) m by (intro parse_at_literal) simp_all
  then have "parseLoop kw t (i + k) st2
               = Inr (cut_at_capacity (emit st2 [text_at t (i + k)]))"
    unfolding cut_at_capacity_def using ik c2 assms(4) m by (intro parseLoop_truncate) simp_all
  moreover have "emit st2 [text_at t (i + k)] = emit st (take m (drop i t))"
    using ik by (simp add: st2_def emit_emit last text_at_def)
  ultimately show ?thesis by simp
qed

lemma cut_text:
  "length cut_template = 1028"
  "take 1015 (drop 0 cut_template) = replicate 1015 (CHR ''a'')"
  "text_at cut_template 1015 = CHR ''%''" "text_at cut_template (1015 + 1) \<noteq> CHR ''%''"
  "find_keyword cut_template (1015 + 1) = None"
  "parse_width cut_template (1015 + 1) = (9, 1)"
  "take 11 (drop 1017 cut_template) = ''frameNumber''"
  "metric_width cut_template 1015 6 = 9"
  "CHR ''%'' \<notin> set (take 12 (drop (1015 + 1) cut_template))"
  "take 8 (drop (1015 + 1) cut_template) = ''9frameNu''"
  by code_simp+

section \<open>Claims about the template parser\<close>

text \<open>
  Claim C6.  The escape sequence \<open>%%\<close> produces a single \<open>%\<close> and what follows it is
  not matched as a placeholder: a template \<open>pre %% post\<close> whose parts hold no further
  \<open>%\<close> is parsed to the text \<open>pre % post\<close> and binds no slot, whatever the keyword
  strings and the contents of the two allocations.  With \<open>pre\<close> empty and \<open>post\<close> the name
  \<open>cpuUsage\<close>, the template \<open>%%cpuUsage\<close> gives the text \<open>%cpuUsage\<close> and no slot.
\<close>

theorem percent_escape:
  assumes "CHR ''%'' \<notin> set pre" "CHR ''%'' \<notin> set post" "NUL \<notin> set pre" "NUL \<notin> set post"
    "length pre + length post + 2 < maxParsedTextSize - 1"
  shows "parsed_string (parseText kw (pre @ ''%%'' @ post) parsedText buffer) = Some (pre @ ''%'' @ post)
       \<and> bound_slots (parseText kw (pre @ ''%%'' @ post) parsedText buffer) = (\<lambda>ty. [])"
proof -
  have "c_string (write_string parsedText 0 ((pre @ ''%'' @ post) @ NUL # [])) = pre @ ''%'' @ post"
    using assms by (intro c_string_write_string) (simp_all add: NUL_def)
  then show ?thesis
    using parseText_percent_escape [OF assms(1,2,5), of kw parsedText buffer]
    by (simp add: parsed_string_def bound_slots_def fun_eq_iff)
qed

theorem percent_escape_witness:
  "parsed_string (parseText example_keywords ''%%cpuUsage'' zeroed zeroed) = Some ''%cpuUsage''
   \<and> bound_slots (parseText example_keywords ''%%cpuUsage'' zeroed zeroed) = (\<lambda>ty. [])"
  using percent_escape [of "[]" "''cpuUsage''" example_keywords zeroed zeroed]
  by (simp add: NUL_def maxParsedTextSize_def)

text \<open>
  Claim C4.  A placeholder that fails to bind (a keyword whose string does not fit, no
  metric of that name, an event type that already holds 16 slots, a metric too wide for
  what is left) raises no error and binds no slot; the parser writes nothing for its
  \<open>%\<close> and copies the characters that follow it, width digits and name, as ordinary text:
  all \<open>n\<close> of them when there is room, and otherwise as many as fit before the last byte,
  where the parse ends with the terminator.
\<close>

theorem unbound_placeholder_literal:
  assumes "text_at t i = CHR ''%''" "text_at t (i + 1) \<noteq> CHR ''%''" "fails_to_bind kw t i st"
    "characters st < maxParsedTextSize - 1"
    "i + 1 + n \<le> length t" "CHR ''%'' \<notin> set (take n (drop (i + 1) t))"
  shows "\<exists>st'. parse_at kw t i st = Inr (i, st')
           \<and> m_parsedText st' = m_parsedText st \<and> characters st' = characters st
           \<and> m_metrics st' = m_metrics st
           \<and> parseLoop kw t i st =
               (if characters st + n < maxParsedTextSize - 1
                then parseLoop kw t (i + 1 + n) (emit st' (take n (drop (i + 1) t)))
                else Inr (cut_at_capacity
                       (emit st' (take (maxParsedTextSize - 1 - characters st) (drop (i + 1) t)))))"
proof -
  obtain buffer where p: "parse_at kw t i st = Inr (i, st\<lparr>m_buffer := buffer\<rparr>)"
    and l: "parseLoop kw t i st = parseLoop kw t (i + 1) (st\<lparr>m_buffer := buffer\<rparr>)"
    using parseLoop_fails_to_bind [OF assms(1-4)] by blast
  define st' where "st' = st\<lparr>m_buffer := buffer\<rparr>"
  have f: "m_parsedText st' = m_parsedText st" "characters st' = characters st"
    "m_metrics st' = m_metrics st"
    by (simp_all add: st'_def)
  have run: "parseLoop kw t (i + 1) st' =
               (if characters st + n < maxParsedTextSize - 1
                then parseLoop kw t (i + 1 + n) (emit st' (take n (drop (i + 1) t)))
                else Inr (cut_at_capacity
                       (emit st' (take (maxParsedTextSize - 1 - characters st) (drop (i + 1) t)))))"
  proof (cases "characters st + n < maxParsedTextSize - 1")
    case True
    then show ?thesis
      using parseLoop_literal [of "i + 1" n t st' kw] assms(5,6) f(2) by simp
  next
    case False
    define m where "m = maxParsedTextSize - 1 - characters st"
    have m: "0 < m" "m \<le> n" "characters st' + m = maxParsedTextSize - 1"
      using False assms(4) f(2) by (simp_all add: m_def)
    have "set (take m (drop (i + 1) t)) \<subseteq> set (take n (drop (i + 1) t))"
      using m(2) by (rule set_take_subset_set_take)
    then have "CHR ''%'' \<notin> set (take m (drop (i + 1) t))" using assms(6) by blast
    then have "parseLoop kw t (i + 1) st' = Inr (cut_at_capacity (emit st' (take m (drop (i + 1) t))))"
      using m assms(5) by (intro parseLoop_literal_cut) simp_all
    then show ?thesis using False by (simp add: m_def)
  qed
  show ?thesis
    using p l f run unfolding st'_def [symmetric] by (intro exI [of _ st']) simp
qed

theorem unbound_placeholder_literal_witness:
  "text_at cut_template 1015 = CHR ''%'' \<and> text_at cut_template (1015 + 1) \<noteq> CHR ''%''
   \<and> fails_to_bind example_keywords cut_template 1015
        (emit (new_text zeroed zeroed) (replicate 1015 (CHR ''a'')))
   \<and> characters (emit (new_text zeroed zeroed) (replicate 1015 (CHR ''a''))) < maxParsedTextSize - 1
   \<and> 1015 + 1 + 12 \<le> length cut_template
   \<and> CHR ''%'' \<notin> set (take 12 (drop (1015 + 1) cut_template))
   \<and> parsed_string (parseText example_keywords cut_template zeroed zeroed)
        = Some (replicate 1015 (CHR ''a'') @ ''9frameNu'')
   \<and> bound_slots (parseText example_keywords cut_template zeroed zeroed) Frame = []"
proof -
  define st where "st = emit (new_text zeroed zeroed) (replicate 1015 (CHR ''a''))"
  have c: "characters st = 1015" "m_metrics st = (\<lambda>ty. [])" by (simp_all add: st_def fun_eq_iff)
  have "find_metric cut_template (1015 + 1 + snd (parse_width cut_template (1015 + 1))) (m_metrics st)
          = Some 6"
    using find_metric_window [of cut_template 1017 "m_metrics st"] cut_text(6,7) c(2)
    by (simp add: frameNumber_metric maxMetricsPerType_def)
  then have f: "fails_to_bind example_keywords cut_template 1015 st"
    using cut_text(5,8) c(1) by (simp add: fails_to_bind_def maxParsedTextSize_def)
  have r: "characters st < maxParsedTextSize - 1" using c(1) by (simp add: maxParsedTextSize_def)
  have n: "1015 + 1 + 12 \<le> length cut_template" using cut_text(1) by simp
  obtain st' where st': "m_parsedText st' = m_parsedText st" "characters st' = characters st"
    "m_metrics st' = m_metrics st"
    "parseLoop example_keywords cut_template 1015 st
       = Inr (cut_at_capacity (emit st' (take 8 (drop (1015 + 1) cut_template))))"
    using unbound_placeholder_literal [OF cut_text(3,4) f r n cut_text(9)] c(1)
    by (auto simp: maxParsedTextSize_def)
  have pre: "CHR ''%'' \<notin> set (take 1015 (drop 0 cut_template))"
    unfolding cut_text(2) by simp
  have "parseLoop example_keywords cut_template 0 (new_text zeroed zeroed)
          = parseLoop example_keywords cut_template (0 + 1015)
              (emit (new_text zeroed zeroed) (take 1015 (drop 0 cut_template)))"
    using cut_text(1) by (intro parseLoop_literal pre) (simp_all add: maxParsedTextSize_def)
  then have run: "parseText example_keywords cut_template zeroed zeroed
          = Inr (cut_at_capacity (emit st' ''9frameNu''))"
    using st'(4) cut_text(2,10) by (simp add: parseText_def st_def)
  have "m_parsedText (cut_at_capacity (emit st' ''9frameNu''))
          = (write_string (write_string zeroed 0 (replicate 1015 (CHR ''a'')))
               (0 + length (replicate 1015 (CHR ''a''))) ''9frameNu'')
            (0 + length (replicate 1015 (CHR ''a'') @ ''9frameNu'') := NUL)"
    using st'(1,2) c(1) by (simp add: cut_at_capacity_def st_def maxParsedTextSize_def)
  also have "\<dots> = write_string zeroed 0 ((replicate 1015 (CHR ''a'') @ ''9frameNu'') @ NUL # [])"
    unfolding write_string_append write_string_snoc ..
  finally have "c_string (m_parsedText (cut_at_capacity (emit st' ''9frameNu'')))
                  = replicate 1015 (CHR ''a'') @ ''9frameNu''"
    using c_string_write_string [of "replicate 1015 (CHR ''a'') @ ''9frameNu''" zeroed "[]"]
    by (simp add: NUL_def maxParsedTextSize_def)
  moreover have "m_metrics (cut_at_capacity (emit st' ''9frameNu'')) Frame = []"
    using st'(3) c(2) by (simp add: cut_at_capacity_def)
  ultimately show ?thesis
    using cut_text(3,4,9) f r n run unfolding st_def
    by (simp add: parsed_string_def bound_slots_def)
qed

text \<open>
  Claim C4 at a template of 17 \<open>%frameNumber\<close> placeholders: 16 slots of the event type
  \<open>Frame\<close> are bound, and the 17th placeholder appears in the parsed text as
  \<open>frameNumber\<close>, without its \<open>%\<close>.
\<close>

theorem seventeenth_frame_placeholder_counterexample:
  "parsed_string (parseText example_keywords seventeen_frame_placeholders zeroed zeroed)
     = Some (replicate 112 (CHR ''?'') @ ''frameNumber'')
   \<and> length (bound_slots (parseText example_keywords seventeen_frame_placeholders zeroed zeroed) Frame)
       = 16"
  by (simp add: seventeen_parsed)

text \<open>
  Claim C9, at an input where the code departs from it.  \<open>keywordString\<close> writes no
  terminating zero byte, and \<open>strcpy\<close> copies up to the first zero byte of the scratch
  buffer.  After \<open>%gpuModel\<close> has left 83 characters in the buffer, \<open>%qtVersion\<close> stores
  its 8 characters over the start of them; with 1014 characters produced, the check
  \<open>8 < 1024 - 1014\<close> passes and \<open>strcpy\<close> copies 84 bytes from offset 1014 on, past the
  end of the 1024 bytes of \<open>m_parsedText\<close>.
\<close>

theorem keyword_copy_overruns_parsed_text:
  "parseText example_keywords overflow_template zeroed zeroed
     = Inl (WriteOutOfBounds maxParsedTextSize)"
proof -
  define t where "t = overflow_template"
  define st0 where "st0 = new_text zeroed zeroed"
  note facts = overflow_text [folded t_def]
  have k1: "keywordString example_keywords 4 (m_buffer st0) = (gpu_buffer, 83)"
    using example_buffers(1) by (simp add: st0_def gpu_buffer_def prod_eq_iff)
  define st1 where
    "st1 = st0\<lparr>m_buffer := gpu_buffer,
              m_parsedText := write_string (m_parsedText st0) (characters st0)
                                (map gpu_buffer [0..<Suc 83]),
              characters := characters st0 + 83\<rparr>"
  have "parse_at example_keywords t 0 st0 = Inr (0 + length (keywordInfo ! 4), st1)"
    using parse_at_keyword [OF facts(2,3,4) k1 _ example_buffers(2)]
    by (simp add: st0_def st1_def maxParsedTextSize_def del: upt_Suc)
  then have p1: "parse_at example_keywords t 0 st0 = Inr (8, st1)"
    using example_buffers(5) by simp
  have c1: "characters st1 = 83" "m_buffer st1 = gpu_buffer" by (simp_all add: st1_def st0_def)
  have a: "parseLoop example_keywords t 0 st0 = parseLoop example_keywords t (8 + 1) st1"
    using p1 c1 by (intro parseLoop_next) (simp_all add: maxParsedTextSize_def)
  define st2 where "st2 = emit st1 (take 931 (drop 9 t))"
  have "parseLoop example_keywords t 9 st1 = parseLoop example_keywords t (9 + 931) st2"
    unfolding st2_def using facts(1,5) c1 by (intro parseLoop_literal) (simp_all add: maxParsedTextSize_def)
  then have b: "parseLoop example_keywords t 9 st1 = parseLoop example_keywords t 940 st2" by simp
  have len: "length (take 931 (drop 9 t)) = 931" using facts(1) by simp
  have c2: "characters st2 = 1014" "m_buffer st2 = gpu_buffer"
    using c1 len by (simp_all add: st2_def)
  have k2: "keywordString example_keywords 0 (m_buffer st2) = (qt_buffer, 8)"
    using example_buffers(3) c2 by (simp add: qt_buffer_def prod_eq_iff)
  have "parse_at example_keywords t 940 st2 = Inl (WriteOutOfBounds maxParsedTextSize)"
    using parse_at_keyword [OF facts(6,7,8) k2 _ example_buffers(4)] c2
    by (simp add: maxParsedTextSize_def del: upt_Suc)
  then have "parseLoop example_keywords t 940 st2 = Inl (WriteOutOfBounds maxParsedTextSize)"
    using facts(1) by (intro parseLoop_error) simp_all
  then show ?thesis
    using a b by (simp add: parseText_def t_def st0_def)
qed

end
